theory Spec2Isabelle
  imports Main "HOL-Library.Word"
begin

unbundle bit_operations_syntax

text \<open>
  A shallow embedding of the core of the binary translator: the XXH64 hasher, the block
  decoder and the rule applicator, the two-tier translation cache and the persistence
  engine. The definitions of all components come first, in the order of the source
  files; the properties follow, one section per component.
\<close>

section \<open>Guest and host instruction tables (mini-rosetta-translator.h, rotheca.h)\<close>

text \<open>
  \<open>byte\<close> is \<open>uint8_t\<close> and \<open>arm_inst\<close> is \<open>uint32_t\<close>. Offsets and lengths
  (\<open>size_t\<close>, and the \<open>int\<close> field \<open>length\<close> of a decoded instruction) are natural
  numbers: every offset the decoder forms stays below \<open>max_length + 4\<close>, so no
  \<open>size_t\<close> addition wraps for slices that fit in memory.
\<close>

type_synonym byte = "8 word"
type_synonym arm_inst = "32 word"

record X86InstructionDef =
  def_opcode :: byte
  mnemonic :: string
  def_size :: int
  has_modrm :: bool
  has_sib :: bool
  has_displacement :: bool
  has_immediate :: bool

record TranslationRule =
  x86_opcode :: byte
  arm_opcodes :: "arm_inst list"
  description :: string

text \<open>
  \<open>X86DecodedInst\<close>; the field \<open>length\<close> is called \<open>len\<close> here, the signed 32-bit
  fields are 32-bit words.
\<close>

record X86DecodedInst =
  opcode :: byte
  modrm :: byte
  sib :: byte
  displacement :: "32 word"
  immediate :: "32 word"
  len :: nat
  operands :: "int list"

text \<open>\<open>X86DecodedInst inst = {0}\<close>: every field zero, no operands.\<close>

definition zero_inst :: X86DecodedInst where
  "zero_inst = \<lparr>opcode = 0, modrm = 0, sib = 0, displacement = 0, immediate = 0,
                len = 0, operands = []\<rparr>"

text \<open>
  \<open>*reinterpret_cast<const int32_t*>(&code[i])\<close> on a little-endian host: the four bytes
  from index \<open>i\<close>, least significant first.
\<close>

definition read_le32 :: "byte list \<Rightarrow> nat \<Rightarrow> 32 word" where
  "read_le32 code i =
     ucast (code ! i) OR push_bit 8 (ucast (code ! (i + 1)))
       OR push_bit 16 (ucast (code ! (i + 2))) OR push_bit 24 (ucast (code ! (i + 3)))"

text \<open>
  \<open>decode_x86_instruction(code, offset, max_length)\<close>, the same text in both translator
  classes. The definition table \<open>x86_defs\<close> is an \<open>unordered_map\<close>, here a map.
  \<open>static_cast<int8_t>\<close> followed by the store into an \<open>int32_t\<close> is the sign
  extension \<open>scast\<close>.
\<close>

definition decode_x86_instruction ::
  "(byte \<rightharpoonup> X86InstructionDef) \<Rightarrow> byte list \<Rightarrow> nat \<Rightarrow> nat \<Rightarrow> X86DecodedInst" where
  "decode_x86_instruction x86_defs code offset max_length =
     (if offset \<ge> max_length then zero_inst
      else
        let inst = zero_inst\<lparr>opcode := code ! offset, len := 1\<rparr> in
        case x86_defs (opcode inst) of
          None \<Rightarrow> inst
        | Some d \<Rightarrow>
            let inst =
              (if has_modrm d \<and> offset + len inst < max_length then
                 let inst = inst\<lparr>modrm := code ! (offset + len inst), len := len inst + 1\<rparr>;
                     md = drop_bit 6 (modrm inst) AND 3;
                     rm = modrm inst AND 7;
                     inst =
                       (if has_sib d \<and> md \<noteq> 3 \<and> rm = 4 \<and> offset + len inst < max_length
                        then inst\<lparr>sib := code ! (offset + len inst), len := len inst + 1\<rparr>
                        else inst)
                 in
                   if has_displacement d then
                     (if md = 1 \<and> offset + len inst < max_length then
                        inst\<lparr>displacement := scast (code ! (offset + len inst)),
                             len := len inst + 1\<rparr>
                      else if md = 2 \<and> offset + len inst + 3 < max_length then
                        inst\<lparr>displacement := read_le32 code (offset + len inst),
                             len := len inst + 4\<rparr>
                      else inst)
                   else inst
               else inst)
            in
              if has_immediate d \<and> offset + len inst + 3 < max_length then
                inst\<lparr>immediate := read_le32 code (offset + len inst), len := len inst + 4\<rparr>
              else inst)"

text \<open>
  \<open>analyze_x86_block(code, max_length)\<close>: the \<open>while\<close> loop, with the running
  \<open>offset\<close> as the argument of the recursion. The recursive call is reached only when
  the decoded length is not zero, so \<open>max_length - offset\<close> decreases.
\<close>

function analyze_x86_block_loop ::
  "(byte \<rightharpoonup> X86InstructionDef) \<Rightarrow> byte list \<Rightarrow> nat \<Rightarrow> nat \<Rightarrow> nat" where
  "analyze_x86_block_loop x86_defs code max_length offset =
     (if offset < max_length then
        let inst = decode_x86_instruction x86_defs code offset max_length in
        if len inst = 0 then offset
        else
          let offset' = offset + len inst in
          if opcode inst = 0xC3 \<or> opcode inst = 0xE9 \<or> opcode inst = 0xE8 then offset'
          else analyze_x86_block_loop x86_defs code max_length offset'
      else offset)"
  by pat_completeness auto
termination
  by (relation "measure (\<lambda>(x86_defs, code, max_length, offset). max_length - offset)") auto

declare analyze_x86_block_loop.simps [simp del]

definition analyze_x86_block :: "(byte \<rightharpoonup> X86InstructionDef) \<Rightarrow> byte list \<Rightarrow> nat \<Rightarrow> nat" where
  "analyze_x86_block x86_defs code max_length = analyze_x86_block_loop x86_defs code max_length 0"

text \<open>
  \<open>translate_x86_instruction\<close>: the first rule of \<open>translation_rules\<close> whose guest opcode
  is the instruction's gives the host words, in order; with no such rule the result is the
  single NOP word.
\<close>

fun translate_rules :: "TranslationRule list \<Rightarrow> X86DecodedInst \<Rightarrow> arm_inst list" where
  "translate_rules [] x86_inst = [0xD503201F]"
| "translate_rules (rule # rules) x86_inst =
     (if x86_opcode rule = opcode x86_inst then arm_opcodes rule
      else translate_rules rules x86_inst)"

definition translate_x86_instruction :: "TranslationRule list \<Rightarrow> X86DecodedInst \<Rightarrow> arm_inst list" where
  "translate_x86_instruction translation_rules x86_inst = translate_rules translation_rules x86_inst"

text \<open>\<open>create_default_definitions\<close>, types \<open>"x86"\<close> and \<open>"translation"\<close>.\<close>

definition mk_def :: "byte \<Rightarrow> string \<Rightarrow> int \<Rightarrow> bool \<Rightarrow> bool \<Rightarrow> bool \<Rightarrow> bool \<Rightarrow> X86InstructionDef" where
  "mk_def oc m s hm hs hdisp himm =
     \<lparr>def_opcode = oc, mnemonic = m, def_size = s, has_modrm = hm, has_sib = hs,
      has_displacement = hdisp, has_immediate = himm\<rparr>"

definition default_x86_defs :: "byte \<rightharpoonup> X86InstructionDef" where
  "default_x86_defs =
     [0x90 \<mapsto> mk_def 0x90 ''NOP'' 1 False False False False,
      0x89 \<mapsto> mk_def 0x89 ''MOV'' 2 True True True False,
      0x01 \<mapsto> mk_def 0x01 ''ADD'' 2 True True True False,
      0x29 \<mapsto> mk_def 0x29 ''SUB'' 2 True True True False,
      0xE8 \<mapsto> mk_def 0xE8 ''CALL'' 5 False False False True,
      0xC3 \<mapsto> mk_def 0xC3 ''RET'' 1 False False False False,
      0x0F \<mapsto> mk_def 0x0F ''SIMD_PREFIX'' 1 False False False False]"

definition default_translation_rules :: "TranslationRule list" where
  "default_translation_rules =
     [\<lparr>x86_opcode = 0x90, arm_opcodes = [0xD503201F], description = ''NOP -> NOP''\<rparr>,
      \<lparr>x86_opcode = 0x89, arm_opcodes = [0xAA0003E0],
       description = ''MOV reg, reg -> MOV X0, X0''\<rparr>,
      \<lparr>x86_opcode = 0x01, arm_opcodes = [0x8B010000],
       description = ''ADD reg, reg -> ADD X0, X0, X1''\<rparr>,
      \<lparr>x86_opcode = 0x29, arm_opcodes = [0xCB010000],
       description = ''SUB reg, reg -> SUB X0, X0, X1''\<rparr>,
      \<lparr>x86_opcode = 0xE8, arm_opcodes = [0xF81F0FE0, 0x94000000],
       description = ''CALL -> STR X0, [SP, -16]! + BL''\<rparr>,
      \<lparr>x86_opcode = 0xC3, arm_opcodes = [0xF84107E0, 0xD65F03C0],
       description = ''RET -> LDR X0, [SP], 16 + RET''\<rparr>,
      \<lparr>x86_opcode = 0x0F, arm_opcodes = [0x4EA01C00], description = ''SIMD -> MOV NEON''\<rparr>]"

text \<open>
  The block boundary in the words of the specification. \<open>decode_chain \<dots> offset k\<close> is
  the offset reached by decoding \<open>k\<close> instructions one after the other from \<open>offset\<close>;
  the terminator set is \<open>{0xC3, 0xE8, 0xE9}\<close>; a block of \<open>k\<close> instructions ends
  properly when every one of them decoded, none but the last is a terminator, and either
  the last one is a terminator or decoding fails right after it.
\<close>

fun decode_chain ::
  "(byte \<rightharpoonup> X86InstructionDef) \<Rightarrow> byte list \<Rightarrow> nat \<Rightarrow> nat \<Rightarrow> nat \<Rightarrow> nat" where
  "decode_chain x86_defs code max_length offset 0 = offset"
| "decode_chain x86_defs code max_length offset (Suc k) =
     decode_chain x86_defs code max_length
       (offset + len (decode_x86_instruction x86_defs code offset max_length)) k"

definition is_terminator :: "byte \<Rightarrow> bool" where
  "is_terminator oc = (oc = 0xC3 \<or> oc = 0xE8 \<or> oc = 0xE9)"

definition block_ends_at ::
  "(byte \<rightharpoonup> X86InstructionDef) \<Rightarrow> byte list \<Rightarrow> nat \<Rightarrow> nat \<Rightarrow> nat \<Rightarrow> bool" where
  "block_ends_at x86_defs code max_length offset k =
     ((\<forall>j<k. len (decode_x86_instruction x86_defs code
                  (decode_chain x86_defs code max_length offset j) max_length) \<noteq> 0) \<and>
      (\<forall>j. Suc j < k \<longrightarrow>
          \<not> is_terminator (opcode (decode_x86_instruction x86_defs code
                  (decode_chain x86_defs code max_length offset j) max_length))) \<and>
      ((0 < k \<and> is_terminator (opcode (decode_x86_instruction x86_defs code
                  (decode_chain x86_defs code max_length offset (k - 1)) max_length))) \<or>
       len (decode_x86_instruction x86_defs code
                  (decode_chain x86_defs code max_length offset k) max_length) = 0))"

text \<open>The example program of the three \<open>main\<close> functions.\<close>

definition example_program :: "byte list" where
  "example_program = [0x90, 0x89, 0xC3, 0x01, 0xC3, 0x29, 0xD8, 0x0F, 0x28, 0xC1, 0xC3]"

section \<open>The hasher (xxhash.h)\<close>

type_synonym u64 = "64 word"

definition PRIME64_1 :: u64 where "PRIME64_1 = 11400714785074694791"
definition PRIME64_2 :: u64 where "PRIME64_2 = 14029467366897019727"
definition PRIME64_3 :: u64 where "PRIME64_3 = 1609587929392839161"
definition PRIME64_4 :: u64 where "PRIME64_4 = 9650029242287828579"
definition PRIME64_5 :: u64 where "PRIME64_5 = 2870177450012600261"

definition XXH_rotl64 :: "u64 \<Rightarrow> nat \<Rightarrow> u64" where
  "XXH_rotl64 x r = push_bit r x OR drop_bit (64 - r) x"

text \<open>
  A pointer \<open>p\<close> into the input together with the end pointer \<open>bEnd\<close> is the list of
  the bytes from \<open>p\<close> up to \<open>bEnd\<close>: \<open>p + n <= bEnd\<close> is \<open>n \<le> length p\<close>, and
  \<open>p += n\<close> is \<open>drop n p\<close>. \<open>memcpy\<close> into an integer on a little-endian host reads
  the bytes least significant first.
\<close>

fun le_bytes :: "byte list \<Rightarrow> 'a::len word" where
  "le_bytes [] = 0"
| "le_bytes (b # bs) = ucast b OR push_bit 8 (le_bytes bs)"

definition XXH_read64 :: "byte list \<Rightarrow> u64" where
  "XXH_read64 memptr = le_bytes (take 8 memptr)"

definition XXH_read32 :: "byte list \<Rightarrow> 32 word" where
  "XXH_read32 memptr = le_bytes (take 4 memptr)"

definition XXH64_round :: "u64 \<Rightarrow> u64 \<Rightarrow> u64" where
  "XXH64_round acc input =
     (let acc = acc + input * PRIME64_2;
          acc = XXH_rotl64 acc 31
      in acc * PRIME64_1)"

definition XXH64_mergeRound :: "u64 \<Rightarrow> u64 \<Rightarrow> u64" where
  "XXH64_mergeRound acc val =
     (let val = XXH64_round 0 val;
          acc = acc XOR val
      in acc * PRIME64_1 + PRIME64_4)"

text \<open>
  The body of the \<open>do \<dots> while (p <= limit)\<close> loop, which \<open>XXH64\<close> and
  \<open>XXH64_update\<close> share word for word: one round per lane on four consecutive 8-byte
  reads. The loop itself runs its body once before it tests \<open>p <= limit\<close>, that is
  \<open>32 \<le> length p\<close> for the advanced \<open>p\<close>.
\<close>

type_synonym lanes = "u64 \<times> u64 \<times> u64 \<times> u64"

definition XXH64_stripe :: "lanes \<Rightarrow> byte list \<Rightarrow> lanes" where
  "XXH64_stripe v p =
     (case v of (v1, v2, v3, v4) \<Rightarrow>
        (XXH64_round v1 (XXH_read64 p),
         XXH64_round v2 (XXH_read64 (drop 8 p)),
         XXH64_round v3 (XXH_read64 (drop 16 p)),
         XXH64_round v4 (XXH_read64 (drop 24 p))))"

function XXH64_stripes :: "lanes \<Rightarrow> byte list \<Rightarrow> lanes \<times> byte list" where
  "XXH64_stripes v p =
     (let v' = XXH64_stripe v p;
          p' = drop 32 p
      in if 32 \<le> length p' then XXH64_stripes v' p' else (v', p'))"
  by pat_completeness auto
termination
  by (relation "measure (\<lambda>(v, p). length p)") auto

declare XXH64_stripes.simps [simp del]

definition XXH64_merge_lanes :: "lanes \<Rightarrow> u64" where
  "XXH64_merge_lanes v =
     (case v of (v1, v2, v3, v4) \<Rightarrow>
        let h64 = XXH_rotl64 v1 1 + XXH_rotl64 v2 7 + XXH_rotl64 v3 12 + XXH_rotl64 v4 18;
            h64 = XXH64_mergeRound h64 v1;
            h64 = XXH64_mergeRound h64 v2;
            h64 = XXH64_mergeRound h64 v3;
            h64 = XXH64_mergeRound h64 v4
        in h64)"

text \<open>
  The processing of the remaining 0 to 31 bytes and the final avalanche, the same text in
  \<open>XXH64\<close> and in \<open>XXH64_digest\<close>: \<open>while (p + 8 <= bEnd)\<close>, \<open>if (p + 4 <= bEnd)\<close>,
  \<open>while (p < bEnd)\<close>.
\<close>

function XXH64_tail8 :: "u64 \<Rightarrow> byte list \<Rightarrow> u64 \<times> byte list" where
  "XXH64_tail8 h64 p =
     (if 8 \<le> length p then
        let k1 = XXH64_round 0 (XXH_read64 p);
            h64 = h64 XOR k1;
            h64 = XXH_rotl64 h64 27 * PRIME64_1 + PRIME64_4
        in XXH64_tail8 h64 (drop 8 p)
      else (h64, p))"
  by pat_completeness auto
termination
  by (relation "measure (\<lambda>(h64, p). length p)") auto

declare XXH64_tail8.simps [simp del]

definition XXH64_tail4 :: "u64 \<Rightarrow> byte list \<Rightarrow> u64 \<times> byte list" where
  "XXH64_tail4 h64 p =
     (if 4 \<le> length p then
        let k1 = XXH_read32 p;
            h64 = h64 XOR ucast k1 * PRIME64_1;
            h64 = XXH_rotl64 h64 23 * PRIME64_2 + PRIME64_3
        in (h64, drop 4 p)
      else (h64, p))"

fun XXH64_tail1 :: "u64 \<Rightarrow> byte list \<Rightarrow> u64" where
  "XXH64_tail1 h64 [] = h64"
| "XXH64_tail1 h64 (b # p) =
     XXH64_tail1 (XXH_rotl64 (h64 XOR ucast b * PRIME64_5) 11 * PRIME64_1) p"

definition XXH64_avalanche :: "u64 \<Rightarrow> u64" where
  "XXH64_avalanche h64 =
     (let h64 = h64 XOR drop_bit 33 h64;
          h64 = h64 * PRIME64_2;
          h64 = h64 XOR drop_bit 29 h64;
          h64 = h64 * PRIME64_3;
          h64 = h64 XOR drop_bit 32 h64
      in h64)"

definition XXH64_finish :: "u64 \<Rightarrow> byte list \<Rightarrow> u64" where
  "XXH64_finish h64 p =
     (case XXH64_tail8 h64 p of (h64, p) \<Rightarrow>
      case XXH64_tail4 h64 p of (h64, p) \<Rightarrow>
        XXH64_avalanche (XXH64_tail1 h64 p))"

text \<open>\<open>XXH64(input, len, seed)\<close>; \<open>len\<close> is the length of the list.\<close>

definition XXH64 :: "byte list \<Rightarrow> u64 \<Rightarrow> u64" where
  "XXH64 input seed =
     (case (if 32 \<le> length input then
              (case XXH64_stripes
                      (seed + PRIME64_1 + PRIME64_2, seed + PRIME64_2, seed + 0, seed - PRIME64_1)
                      input of
                 (v, p) \<Rightarrow> (XXH64_merge_lanes v, p))
            else (seed + PRIME64_5, input)) of
        (h64, p) \<Rightarrow> XXH64_finish (h64 + of_nat (length input)) p)"

text \<open>
  \<open>XXH64_state_t\<close>. The buffer \<open>mem64\<close> (four 64-bit words, always addressed as bytes)
  is a list of 32 bytes; \<open>memsize\<close> never exceeds 32 and is a natural number.
\<close>

record XXH64_state_t =
  total_len :: u64
  v1 :: u64
  v2 :: u64
  v3 :: u64
  v4 :: u64
  mem64 :: "byte list"
  memsize :: nat
  reserved :: "32 word"

definition XXH64_reset :: "u64 \<Rightarrow> XXH64_state_t" where
  "XXH64_reset seed =
     \<lparr>total_len = 0, v1 = seed + PRIME64_1 + PRIME64_2, v2 = seed + PRIME64_2, v3 = seed + 0,
      v4 = seed - PRIME64_1, mem64 = replicate 32 0, memsize = 0, reserved = 0\<rparr>"

text \<open>\<open>memcpy(((uint8_t*)state->mem64) + at, src, n)\<close> with \<open>src\<close> the \<open>n\<close> bytes given.\<close>

definition mem_write :: "byte list \<Rightarrow> nat \<Rightarrow> byte list \<Rightarrow> byte list" where
  "mem_write mem at src = take at mem @ src @ drop (at + length src) mem"

text \<open>
  \<open>XXH64_update\<close> in its three phases, each returning the state and the advanced input
  pointer: fill a partial buffer first (and consume it when full), process the complete
  32-byte blocks, store the remaining bytes. A null \<open>input\<close> (here \<open>None\<close>) returns at
  once; the function returns \<open>true\<close> on every path.
\<close>

definition XXH64_update_fill :: "XXH64_state_t \<Rightarrow> byte list \<Rightarrow> XXH64_state_t \<times> byte list" where
  "XXH64_update_fill state input =
     (if memsize state \<noteq> 0 then
        let remaining = 32 - memsize state;
            to_copy = (if length input < remaining then length input else remaining);
            state = state\<lparr>mem64 := mem_write (mem64 state) (memsize state) (take to_copy input),
                          memsize := memsize state + to_copy\<rparr>;
            state =
              (if memsize state = 32 then
                 state\<lparr>v1 := XXH64_round (v1 state) (XXH_read64 (mem64 state)),
                       v2 := XXH64_round (v2 state) (XXH_read64 (drop 8 (mem64 state))),
                       v3 := XXH64_round (v3 state) (XXH_read64 (drop 16 (mem64 state))),
                       v4 := XXH64_round (v4 state) (XXH_read64 (drop 24 (mem64 state))),
                       memsize := 0\<rparr>
               else state)
        in (state, drop to_copy input)
      else (state, input))"

definition XXH64_update_blocks :: "XXH64_state_t \<Rightarrow> byte list \<Rightarrow> XXH64_state_t \<times> byte list" where
  "XXH64_update_blocks state p =
     (if 32 \<le> length p then
        (case XXH64_stripes (v1 state, v2 state, v3 state, v4 state) p of
           ((a, b, c, d), p') \<Rightarrow> (state\<lparr>v1 := a, v2 := b, v3 := c, v4 := d\<rparr>, p'))
      else (state, p))"

definition XXH64_update_store :: "XXH64_state_t \<Rightarrow> byte list \<Rightarrow> XXH64_state_t" where
  "XXH64_update_store state p =
     (if p \<noteq> [] then
        state\<lparr>mem64 := mem_write (mem64 state) (memsize state) p,
              memsize := memsize state + length p\<rparr>
      else state)"

definition XXH64_update :: "XXH64_state_t \<Rightarrow> byte list option \<Rightarrow> XXH64_state_t" where
  "XXH64_update state input =
     (case input of
        None \<Rightarrow> state
      | Some inp \<Rightarrow>
          let state = state\<lparr>total_len := total_len state + of_nat (length inp)\<rparr> in
          case XXH64_update_fill state inp of (state, p) \<Rightarrow>
          case XXH64_update_blocks state p of (state, p) \<Rightarrow>
            XXH64_update_store state p)"

definition XXH64_digest :: "XXH64_state_t \<Rightarrow> u64" where
  "XXH64_digest state =
     (let h64 = (if 32 \<le> total_len state
                 then XXH64_merge_lanes (v1 state, v2 state, v3 state, v4 state)
                 else v3 state + PRIME64_5);
          h64 = h64 + total_len state
      in XXH64_finish h64 (take (memsize state) (mem64 state)))"

text \<open>
  Streaming use: \<open>XXH64_reset\<close>, then \<open>XXH64_update\<close> on each chunk in order, then
  \<open>XXH64_digest\<close>.
\<close>

definition XXH64_streamed :: "u64 \<Rightarrow> byte list list \<Rightarrow> u64" where
  "XXH64_streamed seed chunks =
     XXH64_digest (foldl (\<lambda>state b. XXH64_update state (Some b)) (XXH64_reset seed) chunks)"

text \<open>
  What the lanes hold after all complete 32-byte blocks of a byte sequence have been
  consumed, and the bytes left over: the reference against which both entry points are
  compared.
\<close>

function stripes_of :: "lanes \<Rightarrow> byte list \<Rightarrow> lanes" where
  "stripes_of v bs = (if 32 \<le> length bs then stripes_of (XXH64_stripe v bs) (drop 32 bs) else v)"
  by pat_completeness auto
termination
  by (relation "measure (\<lambda>(v, bs). length bs)") auto

declare stripes_of.simps [simp del]

definition rest_of :: "byte list \<Rightarrow> byte list" where
  "rest_of bs = drop (32 * (length bs div 32)) bs"

text \<open>
  The four lanes of a streaming state, and the relation between a streaming state and the
  bytes \<open>bs\<close> it has been fed since \<open>XXH64_reset seed\<close>.
\<close>

definition lanes_of :: "XXH64_state_t \<Rightarrow> lanes" where
  "lanes_of s = (v1 s, v2 s, v3 s, v4 s)"

definition hash_inv :: "u64 \<Rightarrow> byte list \<Rightarrow> XXH64_state_t \<Rightarrow> bool" where
  "hash_inv seed bs s =
     (length (mem64 s) = 32 \<and> memsize s < 32 \<and> total_len s = of_nat (length bs) \<and>
      lanes_of s =
        stripes_of (seed + PRIME64_1 + PRIME64_2, seed + PRIME64_2, seed + 0, seed - PRIME64_1) bs \<and>
      take (memsize s) (mem64 s) = rest_of bs)"

section \<open>The translation cache (cache.h)\<close>

text \<open>
  \<open>size_t\<close> fields are 64-bit words. A \<open>time_point\<close> is the tick count of the system
  clock as a 64-bit word, and every operation that reads the clock takes the reading
  \<open>now\<close> as an argument; no claim depends on a time stamp. The fields of the two file
  structures that share a name with a field of the in-memory entry carry the prefix
  \<open>fe_\<close> (file entry) or \<open>hdr_\<close> (header).
\<close>

record CacheFileHeader =
  magic :: u64
  version :: "32 word"
  entry_count :: "32 word"
  hdr_x86_hash :: u64
  creation_time :: u64
  hdr_last_access :: u64
  hit_count :: "32 word"
  hdr_reserved :: "32 word list"

record CacheFileEntry =
  fe_x86_addr :: u64
  fe_x86_size :: "32 word"
  fe_x86_hash :: u64
  arm_offset :: u64
  fe_arm_size :: "32 word"
  execution_count :: "32 word"
  last_execution :: u64
  fe_flags :: "32 word"
  fe_reserved :: "32 word list"

record EnhancedTranslationEntry =
  x86_addr :: u64
  arm_addr :: u64
  x86_size :: u64
  arm_size :: u64
  x86_hash :: u64
  last_access :: u64
  access_count :: "32 word"
  is_hot :: bool
  flags :: "32 word"

datatype CacheLevel = L1_MEMORY | L2_PERSISTENT | NOT_FOUND

text \<open>
  \<open>CacheLookupResult\<close>; its \<open>entry\<close> is left uninitialised on a miss, here \<open>None\<close>.
\<close>

record CacheLookupResult =
  level :: CacheLevel
  res_entry :: "EnhancedTranslationEntry option"
  found :: bool

definition CACHE_MAGIC :: u64 where "CACHE_MAGIC = 0x415243524F535345"
definition CACHE_VERSION :: "32 word" where "CACHE_VERSION = 1"
definition MAX_L1_CACHE_ENTRIES :: nat where "MAX_L1_CACHE_ENTRIES = 1024"

record TranslationCache =
  cache_directory :: string
  l1_cache :: "EnhancedTranslationEntry list"
  binary_cache_map :: "string \<rightharpoonup> string"
  l1_hits :: nat
  l2_hits :: nat
  misses :: nat

text \<open>
  A cache file is modelled at the granularity of its three regions, the 64-byte header,
  the table of 64-byte entry records and the host-code payload; the byte layout inside a
  record is not modelled. The file system maps a path to the file stored there (\<open>None\<close>:
  the file cannot be opened for reading) and says which paths can be opened for writing.
\<close>

record cache_file =
  cf_header :: CacheFileHeader
  cf_entries :: "CacheFileEntry list"
  cf_arm_data :: "byte list"

record file_system =
  files :: "string \<rightharpoonup> cache_file"
  can_write :: "string \<Rightarrow> bool"

text \<open>
  \<open>std::find_if\<close> as the index of the first element that satisfies the predicate; the
  length of the list stands for \<open>end()\<close>. \<open>std::rotate(begin, it, it + 1)\<close> moves
  the element at \<open>it\<close> to the front; \<open>erase(it)\<close> removes it.
\<close>

fun find_if :: "('a \<Rightarrow> bool) \<Rightarrow> 'a list \<Rightarrow> nat" where
  "find_if P [] = 0"
| "find_if P (x # xs) = (if P x then 0 else Suc (find_if P xs))"

definition rotate_to_front :: "'a list \<Rightarrow> nat \<Rightarrow> 'a list" where
  "rotate_to_front xs i = xs ! i # take i xs @ drop (Suc i) xs"

definition erase :: "'a list \<Rightarrow> nat \<Rightarrow> 'a list" where
  "erase xs i = take i xs @ drop (Suc i) xs"

text \<open>\<open>hash_block(code, size)\<close>.\<close>

definition hash_block :: "byte list \<Rightarrow> u64" where
  "hash_block code = XXH64 code 0"

text \<open>
  \<open>save_to_l1_cache(entry)\<close>. In the eviction branch \<open>find_if\<close> runs over the reverse
  range, so the index \<open>j\<close> it returns counts from the back of the vector;
  \<open>(cold_it + 1).base()\<close> is the position of the element \<open>cold_it\<close> refers to.
\<close>

definition save_to_l1_cache :: "u64 \<Rightarrow> EnhancedTranslationEntry \<Rightarrow> TranslationCache \<Rightarrow> TranslationCache" where
  "save_to_l1_cache now e c =
     (let l1 = l1_cache c;
          i = find_if (\<lambda>x. x86_addr x = x86_addr e \<and> x86_hash x = x86_hash e) l1
      in
        if i \<noteq> length l1 then
          let it = (l1 ! i)\<lparr>arm_addr := arm_addr e, arm_size := arm_size e, last_access := now,
                            access_count := access_count (l1 ! i) + 1\<rparr>;
              it = it\<lparr>is_hot := (10 < access_count it)\<rparr>
          in c\<lparr>l1_cache := rotate_to_front (l1[i := it]) i\<rparr>
        else
          let new_entry = e\<lparr>last_access := now, access_count := 1\<rparr>;
              l1 =
                (if MAX_L1_CACHE_ENTRIES \<le> length l1 then
                   let j = find_if (\<lambda>x. \<not> is_hot x) (rev l1) in
                   if j \<noteq> length (rev l1) then erase l1 (length l1 - 1 - j)
                   else butlast l1
                 else l1)
          in c\<lparr>l1_cache := new_entry # l1\<rparr>)"

text \<open>
  \<open>lookup_l1_cache(x86_addr, block_hash, result)\<close>: \<open>Some result\<close> when it returns
  \<open>true\<close>; \<open>result\<close> is the copy taken before the access statistics are updated.
\<close>

definition lookup_l1_cache ::
  "u64 \<Rightarrow> u64 \<Rightarrow> u64 \<Rightarrow> TranslationCache \<Rightarrow> EnhancedTranslationEntry option \<times> TranslationCache" where
  "lookup_l1_cache now addr block_hash c =
     (let l1 = l1_cache c;
          i = find_if (\<lambda>x. x86_addr x = addr \<and> x86_hash x = block_hash) l1
      in
        if i \<noteq> length l1 then
          let result = l1 ! i;
              it = (l1 ! i)\<lparr>last_access := now, access_count := access_count (l1 ! i) + 1\<rparr>;
              it = it\<lparr>is_hot := (10 < access_count it)\<rparr>
          in (Some result, c\<lparr>l1_cache := rotate_to_front (l1[i := it]) i, l1_hits := l1_hits c + 1\<rparr>)
        else (None, c))"

text \<open>
  \<open>save_l2_cache(cache_file, entries, arm_code, x86_hash)\<close>: the loop over the entries
  with the running \<open>current_arm_offset\<close>, then the function; it returns \<open>false\<close> when the
  file cannot be opened for writing.
\<close>

fun save_entries :: "u64 \<Rightarrow> EnhancedTranslationEntry list \<Rightarrow> u64 \<Rightarrow> CacheFileEntry list" where
  "save_entries now [] current_arm_offset = []"
| "save_entries now (e # es) current_arm_offset =
     \<lparr>fe_x86_addr = x86_addr e, fe_x86_size = ucast (x86_size e), fe_x86_hash = x86_hash e,
      arm_offset = current_arm_offset, fe_arm_size = ucast (arm_size e),
      execution_count = access_count e, last_execution = now, fe_flags = flags e,
      fe_reserved = replicate 3 0\<rparr>
     # save_entries now es (current_arm_offset + arm_size e)"

definition save_l2_cache ::
  "u64 \<Rightarrow> string \<Rightarrow> EnhancedTranslationEntry list \<Rightarrow> byte list \<Rightarrow> u64 \<Rightarrow> file_system
     \<Rightarrow> bool \<times> file_system" where
  "save_l2_cache now path entries arm_code hash fs =
     (if \<not> can_write fs path then (False, fs)
      else
        let hdr = \<lparr>magic = CACHE_MAGIC, version = CACHE_VERSION,
                   entry_count = of_nat (length entries), hdr_x86_hash = hash,
                   creation_time = now, hdr_last_access = now, hit_count = 0,
                   hdr_reserved = replicate 4 0\<rparr>
        in (True, fs\<lparr>files := (files fs)(path \<mapsto>
              \<lparr>cf_header = hdr, cf_entries = save_entries now entries 0,
               cf_arm_data = arm_code\<rparr>)\<rparr>))"

text \<open>
  Reading \<open>n\<close> entry records: a vector of \<open>n\<close> value-initialised records, of which
  the read fills as many as the file holds. Reading \<open>n\<close> payload bytes at an offset of
  the payload into the buffer \<open>arm_code\<close> resized to \<open>n\<close>: \<open>resize\<close> keeps the old
  bytes and fills with zeros, the read overwrites as many bytes as the file holds.
\<close>

definition zero_file_entry :: CacheFileEntry where
  "zero_file_entry =
     \<lparr>fe_x86_addr = 0, fe_x86_size = 0, fe_x86_hash = 0, arm_offset = 0, fe_arm_size = 0,
      execution_count = 0, last_execution = 0, fe_flags = 0, fe_reserved = replicate 3 0\<rparr>"

definition read_entries :: "cache_file \<Rightarrow> nat \<Rightarrow> CacheFileEntry list" where
  "read_entries f n = take n (cf_entries f) @ replicate (n - length (cf_entries f)) zero_file_entry"

definition read_payload :: "cache_file \<Rightarrow> nat \<Rightarrow> nat \<Rightarrow> byte list \<Rightarrow> byte list" where
  "read_payload f off n arm_code =
     (let resized = take n arm_code @ replicate (n - length arm_code) 0;
          got = take n (drop off (cf_arm_data f))
      in got @ drop (length got) resized)"

definition entry_of_file_entry :: "CacheFileEntry \<Rightarrow> EnhancedTranslationEntry" where
  "entry_of_file_entry fe =
     \<lparr>x86_addr = fe_x86_addr fe, arm_addr = 0, x86_size = ucast (fe_x86_size fe),
      arm_size = ucast (fe_arm_size fe), x86_hash = fe_x86_hash fe,
      last_access = last_execution fe, access_count = execution_count fe,
      is_hot = (10 < execution_count fe), flags = fe_flags fe\<rparr>"

text \<open>
  \<open>load_l2_cache(cache_file, entries, arm_code, expected_hash)\<close>: \<open>None\<close> when it
  returns \<open>false\<close> (the two output vectors are then untouched), otherwise the entries and
  the host code it read. The rewrite of the updated header at the end is modelled as the
  source states it, on the stream it opened for reading. The payload it reads starts at the beginning of the payload
  region and has the length \<open>total_arm_size\<close>, the maximum of \<open>arm_offset + arm_size\<close>
  (in \<open>size_t\<close>).
\<close>

definition load_l2_cache ::
  "u64 \<Rightarrow> string \<Rightarrow> u64 \<Rightarrow> file_system
     \<Rightarrow> (EnhancedTranslationEntry list \<times> byte list) option \<times> file_system" where
  "load_l2_cache now path expected_hash fs =
     (case files fs path of
        None \<Rightarrow> (None, fs)
      | Some f \<Rightarrow>
          let hdr = cf_header f in
          if magic hdr \<noteq> CACHE_MAGIC \<or> version hdr \<noteq> CACHE_VERSION then (None, fs)
          else if expected_hash \<noteq> 0 \<and> hdr_x86_hash hdr \<noteq> expected_hash then (None, fs)
          else
            let file_entries = read_entries f (unat (entry_count hdr));
                total_arm_size =
                  foldl (\<lambda>t fe. max t (arm_offset fe + ucast (fe_arm_size fe))) (0 :: u64)
                    file_entries;
                arm_code = read_payload f 0 (unat total_arm_size) [];
                entries = map entry_of_file_entry file_entries;
                hdr = hdr\<lparr>hit_count := hit_count hdr + 1, hdr_last_access := now\<rparr>
            in (Some (entries, arm_code), fs\<lparr>files := (files fs)(path \<mapsto> f\<lparr>cf_header := hdr\<rparr>)\<rparr>))"

text \<open>
  \<open>lookup_l2_cache(cache_file, x86_addr, block_hash, result, arm_code)\<close>: \<open>None\<close> when
  it returns \<open>false\<close>, otherwise \<open>result\<close> and the host code read into \<open>arm_code\<close>;
  the counter \<open>l2_hits\<close> and the file system are passed through. The payload position
  \<open>data_start + arm_offset\<close> lies \<open>arm_offset\<close> bytes into the payload region of a
  file whose table has \<open>entry_count\<close> records. The header and the found record are
  written back when the file can be opened for update.
\<close>

definition lookup_l2_cache ::
  "u64 \<Rightarrow> string \<Rightarrow> u64 \<Rightarrow> u64 \<Rightarrow> byte list \<Rightarrow> nat \<Rightarrow> file_system
     \<Rightarrow> (EnhancedTranslationEntry \<times> byte list) option \<times> nat \<times> file_system" where
  "lookup_l2_cache now path addr block_hash arm_code hits fs =
     (case files fs path of
        None \<Rightarrow> (None, hits, fs)
      | Some f \<Rightarrow>
          let hdr = cf_header f in
          if magic hdr \<noteq> CACHE_MAGIC \<or> version hdr \<noteq> CACHE_VERSION then (None, hits, fs)
          else
            let entries = read_entries f (unat (entry_count hdr));
                i = find_if (\<lambda>fe. fe_x86_addr fe = addr \<and> fe_x86_hash fe = block_hash) entries
            in
              if i = length entries then (None, hits, fs)
              else
                let it = entries ! i;
                    arm_code = read_payload f (unat (arm_offset it)) (unat (fe_arm_size it)) arm_code;
                    result = entry_of_file_entry it;
                    it = it\<lparr>execution_count := execution_count it + 1, last_execution := now\<rparr>;
                    hdr = hdr\<lparr>hit_count := hit_count hdr + 1, hdr_last_access := now\<rparr>;
                    fs = (if can_write fs path then
                            fs\<lparr>files := (files fs)(path \<mapsto>
                                 f\<lparr>cf_header := hdr, cf_entries := (cf_entries f)[i := it]\<rparr>)\<rparr>
                          else fs)
                in (Some (result, arm_code), hits + 1, fs))"

text \<open>
  The public operations \<open>lookup\<close>, \<open>store\<close> (whose \<open>schedule_l2_write\<close> has an empty
  body), \<open>checkpoint\<close> and \<open>clear\<close>. A guest block is the list of its \<open>x86_size\<close>
  bytes, the host code given to \<open>store\<close> the list of its \<open>arm_size\<close> bytes.
\<close>

definition lookup ::
  "u64 \<Rightarrow> string \<Rightarrow> u64 \<Rightarrow> byte list \<Rightarrow> byte list \<Rightarrow> TranslationCache \<Rightarrow> file_system
     \<Rightarrow> CacheLookupResult \<times> byte list \<times> TranslationCache \<times> file_system" where
  "lookup now binary_id addr x86_code arm_code c fs =
     (let block_hash = hash_block x86_code in
      case lookup_l1_cache now addr block_hash c of
        (Some e, c) \<Rightarrow>
          (\<lparr>level = L1_MEMORY, res_entry = Some e, found = True\<rparr>, arm_code, c, fs)
      | (None, c) \<Rightarrow>
          let miss = (\<lparr>level = NOT_FOUND, res_entry = None, found = False\<rparr>, arm_code,
                      c\<lparr>misses := misses c + 1\<rparr>, fs)
          in
            (case binary_cache_map c binary_id of
               None \<Rightarrow> miss
             | Some path \<Rightarrow>
                 (case lookup_l2_cache now path addr block_hash arm_code (l2_hits c) fs of
                    (Some (e, arm_code), hits, fs) \<Rightarrow>
                      (\<lparr>level = L2_PERSISTENT, res_entry = Some e, found = True\<rparr>, arm_code,
                       save_to_l1_cache now e (c\<lparr>l2_hits := hits\<rparr>), fs)
                  | (None, hits, fs) \<Rightarrow> miss)))"

definition store ::
  "u64 \<Rightarrow> string \<Rightarrow> u64 \<Rightarrow> byte list \<Rightarrow> u64 \<Rightarrow> byte list \<Rightarrow> TranslationCache \<Rightarrow> TranslationCache" where
  "store now binary_id addr x86_code host_addr arm_code c =
     save_to_l1_cache now
       \<lparr>x86_addr = addr, arm_addr = host_addr, x86_size = of_nat (length x86_code),
        arm_size = of_nat (length arm_code), x86_hash = hash_block x86_code, last_access = now,
        access_count = 1, is_hot = False, flags = 0\<rparr> c"

definition checkpoint :: "u64 \<Rightarrow> string \<Rightarrow> byte list \<Rightarrow> TranslationCache \<Rightarrow> file_system \<Rightarrow> file_system" where
  "checkpoint now binary_id full_arm_code c fs =
     (case binary_cache_map c binary_id of
        None \<Rightarrow> fs
      | Some path \<Rightarrow> snd (save_l2_cache now path (l1_cache c) full_arm_code (XXH64 [] 0) fs))"

definition clear :: "TranslationCache \<Rightarrow> TranslationCache" where
  "clear c = c\<lparr>l1_cache := [], l1_hits := 0, l2_hits := 0, misses := 0\<rparr>"

text \<open>
  The hot-flag invariant of a tier-1 entry, the key of an entry, and a run of \<open>store\<close>
  calls given by their arguments (clock reading, guest address, guest bytes, host address,
  host bytes) with the key each one inserts.
\<close>

definition hot_flag_ok :: "EnhancedTranslationEntry \<Rightarrow> bool" where
  "hot_flag_ok e = (is_hot e = (10 < access_count e))"

definition entry_key :: "EnhancedTranslationEntry \<Rightarrow> u64 \<times> u64" where
  "entry_key e = (x86_addr e, x86_hash e)"

definition store_key :: "u64 \<times> u64 \<times> byte list \<times> u64 \<times> byte list \<Rightarrow> u64 \<times> u64" where
  "store_key ins = (case ins of (now, addr, x86_code, host_addr, arm_code) \<Rightarrow> (addr, hash_block x86_code))"

definition store_all ::
  "string \<Rightarrow> (u64 \<times> u64 \<times> byte list \<times> u64 \<times> byte list) list \<Rightarrow> TranslationCache \<Rightarrow> TranslationCache" where
  "store_all binary_id inss c =
     foldl (\<lambda>c ins. case ins of (now, addr, x86_code, host_addr, arm_code) \<Rightarrow>
              store now binary_id addr x86_code host_addr arm_code c) c inss"

text \<open>
  The vector of tier 1 is in recency order when the \<open>last_access\<close> stamps do not increase
  from the front to the back. \<open>touched\<close> is the update that a hit applies to an entry
  (cache.h, \<open>lookup_l1_cache\<close>). \<open>store_entry\<close> is the entry that \<open>store\<close> builds from its
  arguments, \<open>restored k\<close> the same entry after \<open>k\<close> further stores of the same block.
\<close>

definition recency_ordered :: "EnhancedTranslationEntry list \<Rightarrow> bool" where
  "recency_ordered l = sorted_wrt (\<lambda>a b. last_access b \<le> last_access a) l"

definition touched :: "u64 \<Rightarrow> EnhancedTranslationEntry \<Rightarrow> EnhancedTranslationEntry" where
  "touched now x =
     x\<lparr>last_access := now, access_count := access_count x + 1,
        is_hot := (10 < access_count x + 1)\<rparr>"

definition store_entry :: "u64 \<times> u64 \<times> byte list \<times> u64 \<times> byte list \<Rightarrow> EnhancedTranslationEntry" where
  "store_entry ins =
     (case ins of (now, addr, x86_code, host_addr, arm_code) \<Rightarrow>
        \<lparr>x86_addr = addr, arm_addr = host_addr, x86_size = of_nat (length x86_code),
         arm_size = of_nat (length arm_code), x86_hash = hash_block x86_code, last_access = now,
         access_count = 1, is_hot = False, flags = 0\<rparr>)"

definition restored :: "nat \<Rightarrow> u64 \<times> u64 \<times> byte list \<times> u64 \<times> byte list \<Rightarrow> EnhancedTranslationEntry" where
  "restored k ins =
     (store_entry ins)\<lparr>access_count := 1 + of_nat k, is_hot := (10 < (1 + of_nat k :: 32 word))\<rparr>"

text \<open>
  Concrete states: a cache as the constructor and \<open>initialize_for_binary\<close> leave it,
  for a binary with the identifier \<open>id\<close>; a file system in which every path can be
  written; a host-memory arena holding two translated blocks of four bytes each; the cache
  after the two blocks have been stored; the cache after one block has been stored and
  looked up ten times; 1025 stores of distinct blocks.
\<close>

definition demo_cache :: TranslationCache where
  "demo_cache =
     \<lparr>cache_directory = ''./cache'', l1_cache = [],
      binary_cache_map = [''id'' \<mapsto> ''./cache/id.cache''], l1_hits = 0, l2_hits = 0, misses = 0\<rparr>"

definition demo_fs :: file_system where
  "demo_fs = \<lparr>files = Map.empty, can_write = (\<lambda>path. True)\<rparr>"

definition demo_arena :: "byte list" where
  "demo_arena = [1, 2, 3, 4, 5, 6, 7, 8] @ replicate 8 0"

definition two_blocks_cache :: TranslationCache where
  "two_blocks_cache =
     store 2 ''id'' 0x1010 [0xC3] 0x7004 [5, 6, 7, 8]
       (store 1 ''id'' 0x1000 [0x90, 0xC3] 0x7000 [1, 2, 3, 4] demo_cache)"

definition hot_block_cache :: TranslationCache where
  "hot_block_cache =
     ((\<lambda>c. fst (snd (snd (lookup 2 ''id'' 0x1000 [0x90, 0xC3] [] c demo_fs)))) ^^ 10)
       (store 1 ''id'' 0x1000 [0x90, 0xC3] 0x7000 [1, 2, 3, 4] demo_cache)"

definition many_stores :: "(u64 \<times> u64 \<times> byte list \<times> u64 \<times> byte list) list" where
  "many_stores = map (\<lambda>i. (0, of_nat i, [], 0, [])) [0..<1025]"

text \<open>
  Two full caches that \<open>store\<close> and \<open>lookup\<close> produce. In the first, one block is stored
  at time 1 and looked up ten times at time 2 (it is hot), then 1023 further blocks are stored
  at the times 3, 4, ...: the entry at the least-recently-used end is hot, the 1023 entries
  before it are cold. In the second, each of 1024 blocks is stored eleven times, block \<open>i\<close>
  at time \<open>i + 1\<close>: every entry is hot. A new entry for a block at 5000.
\<close>

definition cold_stores :: "(u64 \<times> u64 \<times> byte list \<times> u64 \<times> byte list) list" where
  "cold_stores = map (\<lambda>i. (of_nat (i + 3), of_nat i, [], 0, [])) [0..<1023]"

definition hot_tail_cache :: TranslationCache where
  "hot_tail_cache = store_all ''id'' cold_stores hot_block_cache"

definition hot_blocks :: "(u64 \<times> u64 \<times> byte list \<times> u64 \<times> byte list) list" where
  "hot_blocks = map (\<lambda>i. (of_nat (i + 1), of_nat i, [], 0, [])) [0..<1024]"

definition all_hot_cache :: TranslationCache where
  "all_hot_cache = store_all ''id'' (concat (map (replicate 11) hot_blocks)) demo_cache"

definition new_block :: EnhancedTranslationEntry where
  "new_block =
     \<lparr>x86_addr = 5000, arm_addr = 0, x86_size = 0, arm_size = 0, x86_hash = hash_block [],
      last_access = 2000, access_count = 1, is_hot = False, flags = 0\<rparr>"

text \<open>
  A cache file written for another binary (header fingerprint 1) with one entry record,
  and the same file with a corrupted magic number.
\<close>

definition foreign_file :: cache_file where
  "foreign_file =
     \<lparr>cf_header = \<lparr>magic = CACHE_MAGIC, version = CACHE_VERSION, entry_count = 1,
                    hdr_x86_hash = 1, creation_time = 0, hdr_last_access = 0, hit_count = 0,
                    hdr_reserved = replicate 4 0\<rparr>,
      cf_entries = [\<lparr>fe_x86_addr = 0x1000, fe_x86_size = 2, fe_x86_hash = 7, arm_offset = 0,
                     fe_arm_size = 4, execution_count = 1, last_execution = 0, fe_flags = 0,
                     fe_reserved = replicate 3 0\<rparr>],
      cf_arm_data = [1, 2, 3, 4]\<rparr>"

definition foreign_fs :: file_system where
  "foreign_fs = \<lparr>files = [''./cache/id.cache'' \<mapsto> foreign_file], can_write = (\<lambda>path. True)\<rparr>"

definition bad_magic_fs :: file_system where
  "bad_magic_fs =
     \<lparr>files = [''./cache/id.cache'' \<mapsto>
                 foreign_file\<lparr>cf_header := (cf_header foreign_file)\<lparr>magic := 0\<rparr>\<rparr>],
      can_write = (\<lambda>path. True)\<rparr>"

section \<open>The persistence engine (cache-persistence.h)\<close>

text \<open>
  The engine runs a worker thread beside its callers. The model is the state both sides
  share, and one function for each stretch of code that runs without the other side
  getting in between: \<open>queue_write\<close> and \<open>flush\<close> up to its wait (both under
  \<open>queue_mutex\<close>), the critical section of the worker loop (\<open>worker_take\<close>: pop the
  front job into the local \<open>job\<close>), and the rest of the loop body outside the lock
  (\<open>worker_process\<close>). A schedule is a sequence of these steps. A callback is \<open>None\<close>
  for \<open>nullptr\<close>, the lambda of \<open>flush\<close> that fulfils \<open>done_promise\<close>, or a
  caller's callback, of which the model logs the calls. Files here are plain byte
  sequences. The hourly housekeeping of the worker is not modelled.
\<close>

datatype job_callback = FlushDone | UserCallback nat

record WriteCacheJob =
  job_file :: string
  job_data :: "byte list"
  job_offset :: u64
  job_callback :: "job_callback option"

record PersistenceManager =
  job_queue :: "WriteCacheJob list"
  worker_job :: "WriteCacheJob option"
  completed_jobs :: nat
  failed_jobs :: nat
  done_promise :: bool
  callback_log :: "(nat \<times> bool) list"
  disk :: "string \<rightharpoonup> byte list"
  disk_can_open :: "string \<Rightarrow> bool"

text \<open>
  \<open>write_to_file\<close>: with \<open>offset > 0\<close> the file is opened for update and keeps its
  bytes (a missing file is created empty), with \<open>offset == 0\<close> it is truncated; the
  data are written at the offset, a gap before it reading as zeros.
\<close>

definition write_at :: "byte list \<Rightarrow> nat \<Rightarrow> byte list \<Rightarrow> byte list" where
  "write_at old off dat =
     take off (old @ replicate (off - length old) 0) @ dat @ drop (off + length dat) old"

definition write_to_file ::
  "string \<Rightarrow> byte list \<Rightarrow> u64 \<Rightarrow> PersistenceManager \<Rightarrow> bool \<times> PersistenceManager" where
  "write_to_file filename dat off s =
     (if \<not> disk_can_open s filename then (False, s)
      else
        let old = (if 0 < off then (case disk s filename of None \<Rightarrow> [] | Some bs \<Rightarrow> bs) else [])
        in (True, s\<lparr>disk := (disk s)(filename \<mapsto> write_at old (unat off) dat)\<rparr>))"

definition queue_write ::
  "string \<Rightarrow> byte list \<Rightarrow> u64 \<Rightarrow> job_callback option \<Rightarrow> PersistenceManager \<Rightarrow> PersistenceManager" where
  "queue_write path dat off cb s =
     s\<lparr>job_queue := job_queue s @
          [\<lparr>job_file = path, job_data = dat, job_offset = off, job_callback = cb\<rparr>]\<rparr>"

definition worker_take :: "PersistenceManager \<Rightarrow> PersistenceManager" where
  "worker_take s =
     (case worker_job s of
        Some job \<Rightarrow> s
      | None \<Rightarrow>
          (case job_queue s of
             [] \<Rightarrow> s
           | job # rest \<Rightarrow> s\<lparr>worker_job := Some job, job_queue := rest\<rparr>))"

definition run_callback :: "job_callback option \<Rightarrow> bool \<Rightarrow> PersistenceManager \<Rightarrow> PersistenceManager" where
  "run_callback cb success s =
     (case cb of
        None \<Rightarrow> s
      | Some FlushDone \<Rightarrow> s\<lparr>done_promise := True\<rparr>
      | Some (UserCallback n) \<Rightarrow> s\<lparr>callback_log := callback_log s @ [(n, success)]\<rparr>)"

definition worker_process :: "PersistenceManager \<Rightarrow> PersistenceManager" where
  "worker_process s =
     (case worker_job s of
        None \<Rightarrow> s
      | Some job \<Rightarrow>
          let s =
            (if job_file job \<noteq> [] then
               (case write_to_file (job_file job) (job_data job) (job_offset job) s of
                  (success, s) \<Rightarrow>
                    let s = (if success then s\<lparr>completed_jobs := completed_jobs s + 1\<rparr>
                             else s\<lparr>failed_jobs := failed_jobs s + 1\<rparr>)
                    in run_callback (job_callback job) success s)
             else s)
          in s\<lparr>worker_job := None\<rparr>)"

text \<open>
  \<open>flush\<close>: it returns at once when the queue is empty; otherwise it posts a job with
  an empty path whose callback fulfils the promise, and waits for the promise
  (\<open>flush_wait\<close>).
\<close>

datatype flush_status = Returned | Waiting

definition flush :: "PersistenceManager \<Rightarrow> flush_status \<times> PersistenceManager" where
  "flush s =
     (if job_queue s = [] then (Returned, s)
      else
        (Waiting,
         s\<lparr>done_promise := False,
            job_queue := job_queue s @
              [\<lparr>job_file = [], job_data = [], job_offset = 0, job_callback = Some FlushDone\<rparr>]\<rparr>))"

definition flush_wait :: "PersistenceManager \<Rightarrow> flush_status" where
  "flush_wait s = (if done_promise s then Returned else Waiting)"

text \<open>The engine after construction, and after two writes to one file have been queued.\<close>

definition pm_init :: PersistenceManager where
  "pm_init =
     \<lparr>job_queue = [], worker_job = None, completed_jobs = 0, failed_jobs = 0,
      done_promise = False, callback_log = [], disk = Map.empty, disk_can_open = (\<lambda>path. True)\<rparr>"

definition two_writes :: PersistenceManager where
  "two_writes =
     queue_write ''cache/f.cache'' [0x62] 0 None
       (queue_write ''cache/f.cache'' [0x61] 0 None pm_init)"

section \<open>The decoder and the block boundary\<close>

lemma decode_len_bounds:
  "offset < max_length \<Longrightarrow>
     1 \<le> len (decode_x86_instruction x86_defs code offset max_length) \<and>
     offset + len (decode_x86_instruction x86_defs code offset max_length) \<le> max_length"
  by (auto simp: decode_x86_instruction_def zero_inst_def Let_def split: option.splits)

lemma decode_oob_opcode:
  "max_length \<le> offset \<Longrightarrow> decode_x86_instruction x86_defs code offset max_length = zero_inst"
  by (simp add: decode_x86_instruction_def)

text \<open>
  C3, as stated, fails: the seeded definition of opcode \<open>0x89\<close> requires a ModR/M byte;
  in the one-byte slice \<open>89\<close> that byte lies beyond the slice end, and the decoder
  returns consumed-length 1, not 0.
\<close>

theorem decode_oob_modrm_counterexample:
  "has_modrm (the (default_x86_defs 0x89)) \<and> length [0x89 :: byte] \<le> 0 + 1 \<and>
   len (decode_x86_instruction default_x86_defs [0x89] 0 (length [0x89 :: byte])) = 1"
  by (simp add: decode_x86_instruction_def zero_inst_def Let_def default_x86_defs_def mk_def_def)

text \<open>
  C3, amended: on a slice of \<open>max_length\<close> bytes the decoder returns consumed-length 0
  exactly when the opcode byte itself lies beyond the slice end. When the opcode byte is inside the slice, a later field
  whose bytes would lie beyond the slice end is skipped by its guard: the consumed length
  is at least 1 and covers only bytes inside the slice.
\<close>

theorem decode_oob_contract:
  "max_length \<le> length code \<Longrightarrow>
   (max_length \<le> offset \<longrightarrow>
      len (decode_x86_instruction x86_defs code offset max_length) = 0) \<and>
   (offset < max_length \<longrightarrow>
      1 \<le> len (decode_x86_instruction x86_defs code offset max_length) \<and>
      offset + len (decode_x86_instruction x86_defs code offset max_length) \<le> max_length)"
  using decode_len_bounds [of offset max_length x86_defs code]
  by (simp add: decode_oob_opcode zero_inst_def)

theorem decode_oob_contract_witness:
  "11 \<le> length example_program \<and>
   len (decode_x86_instruction default_x86_defs example_program 11 11) = 0 \<and>
   1 \<le> length [0x89 :: byte] \<and> (0 :: nat) < 1 \<and>
   1 \<le> len (decode_x86_instruction default_x86_defs [0x89] 0 1) \<and>
   0 + len (decode_x86_instruction default_x86_defs [0x89] 0 1) \<le> 1"
  using decode_oob_contract [where max_length = 11 and code = example_program and offset = 11
      and x86_defs = default_x86_defs]
    decode_oob_contract [where max_length = 1 and code = "[0x89]" and offset = 0
      and x86_defs = default_x86_defs]
  by (simp add: example_program_def)

lemma loop_block_ends:
  "\<exists>k. analyze_x86_block_loop d c m off = decode_chain d c m off k \<and> block_ends_at d c m off k"
proof (induction d c m off rule: analyze_x86_block_loop.induct)
  case (1 d c m off)
  let ?inst = "decode_x86_instruction d c off m"
  show ?case
  proof (cases "off < m")
    case False
    then have "analyze_x86_block_loop d c m off = decode_chain d c m off 0"
      by (subst analyze_x86_block_loop.simps) simp
    moreover have "block_ends_at d c m off 0"
      using False by (simp add: block_ends_at_def decode_oob_opcode zero_inst_def)
    ultimately show ?thesis by blast
  next
    case True
    then have l: "len ?inst \<noteq> 0" using decode_len_bounds [of off m d c] by simp
    show ?thesis
    proof (cases "is_terminator (opcode ?inst)")
      case True
      have "analyze_x86_block_loop d c m off = decode_chain d c m off (Suc 0)"
        using \<open>off < m\<close> l True
        by (subst analyze_x86_block_loop.simps) (auto simp: Let_def is_terminator_def)
      moreover have "block_ends_at d c m off (Suc 0)"
        using l True by (simp add: block_ends_at_def)
      ultimately show ?thesis by blast
    next
      case False
      let ?off' = "off + len ?inst"
      from "1.IH" [OF \<open>off < m\<close> refl l refl] False
      obtain k where k: "analyze_x86_block_loop d c m ?off' = decode_chain d c m ?off' k"
        and b: "block_ends_at d c m ?off' k"
        by (auto simp: is_terminator_def)
      have "analyze_x86_block_loop d c m off = decode_chain d c m off (Suc k)"
        using \<open>off < m\<close> l False k
        by (subst analyze_x86_block_loop.simps) (auto simp: Let_def is_terminator_def)
      moreover have "block_ends_at d c m off (Suc k)"
        unfolding block_ends_at_def
      proof (intro conjI allI impI)
        fix j assume "j < Suc k"
        then show "len (decode_x86_instruction d c (decode_chain d c m off j) m) \<noteq> 0"
          using l b by (cases j) (auto simp: block_ends_at_def)
      next
        fix j assume "Suc j < Suc k"
        then show "\<not> is_terminator (opcode (decode_x86_instruction d c (decode_chain d c m off j) m))"
          using False b by (cases j) (auto simp: block_ends_at_def)
      next
        show "0 < Suc k \<and> is_terminator (opcode (decode_x86_instruction d c
                  (decode_chain d c m off (Suc k - 1)) m)) \<or>
              len (decode_x86_instruction d c (decode_chain d c m off (Suc k)) m) = 0"
          using b by (cases k) (auto simp: block_ends_at_def)
      qed
      ultimately show ?thesis by blast
    qed
  qed
qed

lemma loop_le:
  "off \<le> m \<Longrightarrow> analyze_x86_block_loop d c m off \<le> m"
proof (induction d c m off rule: analyze_x86_block_loop.induct)
  case (1 d c m off)
  show ?case
  proof (cases "off < m")
    case False
    then show ?thesis using "1.prems" by (subst analyze_x86_block_loop.simps) simp
  next
    case True
    note b = decode_len_bounds [OF True, of d c]
    show ?thesis
      using True b "1.IH" [OF True refl _ refl]
      by (subst analyze_x86_block_loop.simps) (auto simp: Let_def)
  qed
qed

lemma example_block_length:
  "analyze_x86_block default_x86_defs example_program 11 = 11"
  by (simp add: analyze_x86_block_def analyze_x86_block_loop.simps decode_x86_instruction_def
      zero_inst_def Let_def default_x86_defs_def mk_def_def example_program_def)

lemma example_block_length_in_memory:
  "analyze_x86_block default_x86_defs (example_program @ replicate 1013 0) 1024 = 11"
  by (simp add: analyze_x86_block_def analyze_x86_block_loop.simps decode_x86_instruction_def
      zero_inst_def Let_def default_x86_defs_def mk_def_def example_program_def)

text \<open>
  C4: under the seeded guest definitions and on a slice of \<open>max_length\<close> bytes,
  \<open>analyze_x86_block\<close> returns the offset reached
  by decoding instructions one after the other from offset 0, up to and including the
  first instruction whose opcode is \<open>0xC3\<close>, \<open>0xE8\<close> or \<open>0xE9\<close>, or up to the first
  offset at which decoding fails; the result never exceeds \<open>max_length\<close>, which both
  callers set to 1024; and the example program, alone or at the start of the zero-filled
  guest memory, gives block length 11.
\<close>

theorem analyze_x86_block_boundary:
  "(max_length \<le> length code \<longrightarrow>
      (\<exists>k. analyze_x86_block default_x86_defs code max_length =
            decode_chain default_x86_defs code max_length 0 k \<and>
          block_ends_at default_x86_defs code max_length 0 k) \<and>
      analyze_x86_block default_x86_defs code max_length \<le> max_length) \<and>
   (1024 \<le> length code \<longrightarrow> analyze_x86_block default_x86_defs code 1024 \<le> 1024) \<and>
   analyze_x86_block default_x86_defs example_program 11 = 11 \<and>
   analyze_x86_block default_x86_defs (example_program @ replicate 1013 0) 1024 = 11"
  using loop_block_ends [of default_x86_defs code max_length 0]
    loop_le [of 0 max_length default_x86_defs code] loop_le [of 0 1024 default_x86_defs code]
    example_block_length example_block_length_in_memory
  by (simp add: analyze_x86_block_def)

theorem analyze_x86_block_boundary_witness:
  "11 \<le> length example_program \<and>
   (\<exists>k. analyze_x86_block default_x86_defs example_program 11 =
          decode_chain default_x86_defs example_program 11 0 k \<and>
        block_ends_at default_x86_defs example_program 11 0 k) \<and>
   analyze_x86_block default_x86_defs example_program 11 \<le> 11 \<and>
   1024 \<le> length (example_program @ replicate 1013 0) \<and>
   analyze_x86_block default_x86_defs (example_program @ replicate 1013 0) 1024 \<le> 1024"
proof -
  have a: "11 \<le> length example_program" by (simp add: example_program_def)
  have b: "1024 \<le> length (example_program @ replicate 1013 0)"
    by (simp add: example_program_def)
  show ?thesis
    using a b analyze_x86_block_boundary [where code = example_program and max_length = 11]
      analyze_x86_block_boundary [where code = "example_program @ replicate 1013 0"
        and max_length = 1024]
    by blast
qed

section \<open>The rule applicator\<close>

text \<open>
  C5: for every rule table and every decoded instruction, \<open>translate_x86_instruction\<close>
  returns the host words of the first rule whose guest opcode is the instruction's, in
  their order, and the single NOP word \<open>0xD503201F\<close> when no rule matches; it is a total
  function, so it always returns; with the seeded rules an instruction of opcode
  \<open>0xFE\<close> gives exactly \<open>[0xD503201F]\<close>.
\<close>

theorem translate_x86_instruction_total:
  "translate_x86_instruction translation_rules x86_inst =
     (case find (\<lambda>rule. x86_opcode rule = opcode x86_inst) translation_rules of
        Some rule \<Rightarrow> arm_opcodes rule
      | None \<Rightarrow> [0xD503201F]) \<and>
   translate_x86_instruction default_translation_rules (x86_inst\<lparr>opcode := 0xFE\<rparr>) = [0xD503201F]"
proof
  show "translate_x86_instruction translation_rules x86_inst =
     (case find (\<lambda>rule. x86_opcode rule = opcode x86_inst) translation_rules of
        Some rule \<Rightarrow> arm_opcodes rule
      | None \<Rightarrow> [0xD503201F])"
    unfolding translate_x86_instruction_def
    by (induction translation_rules) simp_all
next
  show "translate_x86_instruction default_translation_rules (x86_inst\<lparr>opcode := 0xFE\<rparr>) =
      [0xD503201F]"
    by (simp add: translate_x86_instruction_def default_translation_rules_def)
qed

section \<open>The hasher: streaming and one-shot agree\<close>

lemma read64_append: "8 \<le> length a \<Longrightarrow> XXH_read64 (a @ b) = XXH_read64 a"
  by (simp add: XXH_read64_def)

lemma stripe_append: "32 \<le> length a \<Longrightarrow> XXH64_stripe v (a @ b) = XXH64_stripe v a"
  by (cases v) (simp add: XXH64_stripe_def read64_append)

lemma stripes_of_short: "length bs < 32 \<Longrightarrow> stripes_of v bs = v"
  by (subst stripes_of.simps) simp

lemma stripes_of_long:
  "32 \<le> length bs \<Longrightarrow> stripes_of v bs = stripes_of (XXH64_stripe v bs) (drop 32 bs)"
  by (subst stripes_of.simps) simp

lemma rest_of_short: "length bs < 32 \<Longrightarrow> rest_of bs = bs"
  by (simp add: rest_of_def)

lemma rest_of_long: "32 \<le> length bs \<Longrightarrow> rest_of bs = rest_of (drop 32 bs)"
proof -
  assume a: "32 \<le> length bs"
  then have "length bs div 32 = Suc ((length bs - 32) div 32)"
    by (simp add: le_div_geq)
  then show ?thesis by (simp add: rest_of_def add.commute)
qed

lemma length_rest_of: "length (rest_of bs) < 32"
  unfolding rest_of_def by (simp add: minus_mult_div_eq_mod)

lemma XXH64_stripes_eq:
  "32 \<le> length p \<Longrightarrow> XXH64_stripes v p = (stripes_of v p, rest_of p)"
proof (induction v p rule: XXH64_stripes.induct)
  case (1 v p)
  show ?case
  proof (cases "32 \<le> length (drop 32 p)")
    case True
    have "XXH64_stripes v p = XXH64_stripes (XXH64_stripe v p) (drop 32 p)"
      using True by (subst XXH64_stripes.simps) (simp add: Let_def)
    also have "\<dots> = (stripes_of (XXH64_stripe v p) (drop 32 p), rest_of (drop 32 p))"
      using "1.IH" [OF refl refl True True] .
    finally show ?thesis
      using "1.prems" by (simp add: stripes_of_long rest_of_long)
  next
    case False
    have "XXH64_stripes v p = (XXH64_stripe v p, drop 32 p)"
      using False by (subst XXH64_stripes.simps) (simp add: Let_def)
    moreover have "stripes_of v p = XXH64_stripe v p"
      using False "1.prems" by (simp add: stripes_of_long stripes_of_short)
    moreover have "rest_of p = drop 32 p"
      using False "1.prems" by (simp add: rest_of_long rest_of_short)
    ultimately show ?thesis by simp
  qed
qed

lemma stripes_of_block_append:
  "length a = 32 \<Longrightarrow> stripes_of v (a @ b) = stripes_of (XXH64_stripe v a) b"
  by (simp add: stripes_of_long stripe_append)

lemma rest_of_block_append: "length a = 32 \<Longrightarrow> rest_of (a @ b) = rest_of b"
  by (simp add: rest_of_long)

lemma stripes_rest_append:
  "stripes_of v (a @ b) = stripes_of (stripes_of v a) (rest_of a @ b) \<and>
   rest_of (a @ b) = rest_of (rest_of a @ b)"
proof (induction v a rule: stripes_of.induct)
  case (1 v a)
  show ?case
  proof (cases "32 \<le> length a")
    case True
    then have "stripes_of v (a @ b) = stripes_of (XXH64_stripe v a) (drop 32 a @ b)"
      by (simp add: stripes_of_long stripe_append)
    moreover have "rest_of (a @ b) = rest_of (drop 32 a @ b)"
      using True by (simp add: rest_of_long)
    ultimately show ?thesis
      using "1.IH" [OF True] True by (simp add: stripes_of_long rest_of_long)
  next
    case False
    then show ?thesis by (simp add: stripes_of_short rest_of_short)
  qed
qed


lemma update_fill_abs:
  assumes len: "length (mem64 s) = 32" and ms: "memsize s < 32"
  shows "case XXH64_update_fill s c of (s1, p1) \<Rightarrow>
     length (mem64 s1) = 32 \<and> memsize s1 < 32 \<and> total_len s1 = total_len s \<and>
     stripes_of (lanes_of s1) (take (memsize s1) (mem64 s1) @ p1) =
       stripes_of (lanes_of s) (take (memsize s) (mem64 s) @ c) \<and>
     rest_of (take (memsize s1) (mem64 s1) @ p1) = rest_of (take (memsize s) (mem64 s) @ c) \<and>
     (memsize s1 = 0 \<or> p1 = [])"
proof (cases "memsize s = 0")
  case True
  then show ?thesis using len by (simp add: XXH64_update_fill_def)
next
  case False
  note nz = False
  show ?thesis
  proof (cases "length c < 32 - memsize s")
    case True
    then have lt: "memsize s + length c < 32" "memsize s + length c \<noteq> 32" by arith+
    show ?thesis
      using True lt nz len ms
      by (simp add: XXH64_update_fill_def Let_def mem_write_def lanes_of_def)
  next
    case False
    let ?blk = "take (memsize s) (mem64 s) @ take (32 - memsize s) c"
    have blk: "length ?blk = 32" using False len ms by simp
    have mw: "mem_write (mem64 s) (memsize s) (take (32 - memsize s) c) = ?blk"
      using False len ms by (simp add: mem_write_def)
    have split: "take (memsize s) (mem64 s) @ c = ?blk @ drop (32 - memsize s) c"
      by simp
    have fill: "XXH64_update_fill s c =
        (s\<lparr>mem64 := ?blk, memsize := 0,
           v1 := XXH64_round (v1 s) (XXH_read64 ?blk),
           v2 := XXH64_round (v2 s) (XXH_read64 (drop 8 ?blk)),
           v3 := XXH64_round (v3 s) (XXH_read64 (drop 16 ?blk)),
           v4 := XXH64_round (v4 s) (XXH_read64 (drop 24 ?blk))\<rparr>,
         drop (32 - memsize s) c)"
      using nz False ms by (simp add: XXH64_update_fill_def Let_def mw)
    have st: "stripes_of (lanes_of s) (?blk @ drop (32 - memsize s) c) =
        stripes_of (XXH64_stripe (lanes_of s) ?blk) (drop (32 - memsize s) c)"
      using blk by (rule stripes_of_block_append)
    have rs: "rest_of (?blk @ drop (32 - memsize s) c) = rest_of (drop (32 - memsize s) c)"
      using blk by (rule rest_of_block_append)
    show ?thesis
      unfolding fill split st rs using blk
      by (simp add: lanes_of_def XXH64_stripe_def)
  qed
qed

lemma update_blocks_abs:
  "case XXH64_update_blocks s p of (s2, p2) \<Rightarrow>
     mem64 s2 = mem64 s \<and> memsize s2 = memsize s \<and> total_len s2 = total_len s \<and>
     lanes_of s2 = stripes_of (lanes_of s) p \<and> p2 = rest_of p"
proof (cases "32 \<le> length p")
  case True
  obtain a b c d where l: "stripes_of (lanes_of s) p = (a, b, c, d)"
    by (cases "stripes_of (lanes_of s) p") auto
  have "XXH64_stripes (v1 s, v2 s, v3 s, v4 s) p = ((a, b, c, d), rest_of p)"
    using XXH64_stripes_eq [OF True, of "lanes_of s"] l by (simp add: lanes_of_def)
  then show ?thesis
    using True l by (simp add: XXH64_update_blocks_def lanes_of_def)
next
  case False
  then show ?thesis
    by (simp add: XXH64_update_blocks_def stripes_of_short rest_of_short)
qed

lemma update_store_abs:
  assumes len: "length (mem64 s) = 32" and ms: "memsize s = 0 \<or> p = []" and p: "length p < 32"
    and ms32: "memsize s < 32"
  shows "length (mem64 (XXH64_update_store s p)) = 32 \<and>
     memsize (XXH64_update_store s p) < 32 \<and>
     total_len (XXH64_update_store s p) = total_len s \<and>
     lanes_of (XXH64_update_store s p) = lanes_of s \<and>
     take (memsize (XXH64_update_store s p)) (mem64 (XXH64_update_store s p)) =
       take (memsize s) (mem64 s) @ p"
  using assms by (auto simp: XXH64_update_store_def mem_write_def lanes_of_def)


lemma update_abs:
  assumes len: "length (mem64 s) = 32" and ms: "memsize s < 32"
  shows "length (mem64 (XXH64_update s (Some c))) = 32 \<and>
     memsize (XXH64_update s (Some c)) < 32 \<and>
     total_len (XXH64_update s (Some c)) = total_len s + of_nat (length c) \<and>
     lanes_of (XXH64_update s (Some c)) =
       stripes_of (lanes_of s) (take (memsize s) (mem64 s) @ c) \<and>
     take (memsize (XXH64_update s (Some c))) (mem64 (XXH64_update s (Some c))) =
       rest_of (take (memsize s) (mem64 s) @ c)"
proof -
  let ?buf = "take (memsize s) (mem64 s)"
  define s0 where "s0 = s\<lparr>total_len := total_len s + of_nat (length c)\<rparr>"
  obtain s1 p1 where f: "XXH64_update_fill s0 c = (s1, p1)"
    by (cases "XXH64_update_fill s0 c") auto
  obtain s2 p2 where b: "XXH64_update_blocks s1 p1 = (s2, p2)"
    by (cases "XXH64_update_blocks s1 p1") auto
  have upd: "XXH64_update s (Some c) = XXH64_update_store s2 p2"
    by (simp add: XXH64_update_def Let_def f b s0_def [symmetric])
  have s0: "length (mem64 s0) = 32" "memsize s0 < 32" "lanes_of s0 = lanes_of s"
    "take (memsize s0) (mem64 s0) = ?buf" "total_len s0 = total_len s + of_nat (length c)"
    using len ms by (simp_all add: s0_def lanes_of_def)
  from update_fill_abs [OF s0(1) s0(2), of c] f s0
  have f1: "length (mem64 s1) = 32" "memsize s1 < 32"
    "total_len s1 = total_len s + of_nat (length c)"
    "stripes_of (lanes_of s1) (take (memsize s1) (mem64 s1) @ p1) = stripes_of (lanes_of s) (?buf @ c)"
    "rest_of (take (memsize s1) (mem64 s1) @ p1) = rest_of (?buf @ c)"
    "memsize s1 = 0 \<or> p1 = []"
    by simp_all
  from update_blocks_abs [of s1 p1] b
  have b1: "mem64 s2 = mem64 s1" "memsize s2 = memsize s1" "total_len s2 = total_len s1"
    "lanes_of s2 = stripes_of (lanes_of s1) p1" "p2 = rest_of p1"
    by simp_all
  have p2: "length p2 < 32" using b1(5) length_rest_of by simp
  have or2: "memsize s2 = 0 \<or> p2 = []"
    using f1(6) b1(2) b1(5) by (auto simp: rest_of_def)
  have l2: "length (mem64 s2) = 32" "memsize s2 < 32" using f1 b1 by simp_all
  note st = update_store_abs [OF l2(1) or2 p2 l2(2)]
  have lanes: "lanes_of s2 = stripes_of (lanes_of s) (?buf @ c)"
  proof (cases "memsize s1 = 0")
    case True
    then show ?thesis using f1(4) b1(4) by simp
  next
    case False
    then have "p1 = []" using f1(6) by simp
    then show ?thesis using f1(4) f1(1) f1(2) b1(4) by (simp add: stripes_of_short)
  qed
  have buf: "take (memsize s2) (mem64 s2) @ p2 = rest_of (?buf @ c)"
  proof (cases "memsize s1 = 0")
    case True
    then show ?thesis using f1(5) b1 by simp
  next
    case False
    then have "p1 = []" using f1(6) by simp
    then show ?thesis using f1(5) f1(1) f1(2) b1 by (simp add: rest_of_short)
  qed
  show ?thesis
    unfolding upd using st lanes buf f1(3) b1(3) by simp
qed

lemma hash_inv_reset: "hash_inv seed [] (XXH64_reset seed)"
  by (simp add: hash_inv_def XXH64_reset_def lanes_of_def stripes_of_short rest_of_short)

lemma hash_inv_update:
  assumes "hash_inv seed bs s"
  shows "hash_inv seed (bs @ c) (XXH64_update s (Some c))"
proof -
  from assms have len: "length (mem64 s) = 32" and ms: "memsize s < 32"
    and rest: "take (memsize s) (mem64 s) = rest_of bs"
    and lanes: "lanes_of s =
        stripes_of (seed + PRIME64_1 + PRIME64_2, seed + PRIME64_2, seed + 0, seed - PRIME64_1) bs"
    and tl: "total_len s = of_nat (length bs)"
    by (simp_all add: hash_inv_def)
  note u = update_abs [OF len ms, of c]
  note a = stripes_rest_append [of _ bs c]
  show ?thesis
    unfolding hash_inv_def using u a by (simp add: rest lanes tl)
qed

lemma hash_inv_foldl:
  "hash_inv seed bs s \<Longrightarrow>
   hash_inv seed (bs @ concat chunks) (foldl (\<lambda>state b. XXH64_update state (Some b)) s chunks)"
proof (induction chunks arbitrary: bs s)
  case Nil
  then show ?case by simp
next
  case (Cons c chunks)
  from Cons.IH [OF hash_inv_update [OF Cons.prems, of c]]
  show ?case by simp
qed

lemma le32_of_nat:
  "n < 2 ^ 64 \<Longrightarrow> ((32 :: u64) \<le> of_nat n) = (32 \<le> n)"
  by (simp add: word_le_nat_alt unat_of_nat)

lemma hash_inv_digest:
  assumes inv: "hash_inv seed bs s" and n: "length bs < 2 ^ 64"
  shows "XXH64_digest s = XXH64 bs seed"
proof (cases "32 \<le> length bs")
  case True
  obtain a b c d where l:
    "stripes_of (seed + PRIME64_1 + PRIME64_2, seed + PRIME64_2, seed, seed - PRIME64_1) bs
       = (a, b, c, d)"
    using prod_cases4 by blast
  have one: "XXH64 bs seed = XXH64_finish (XXH64_merge_lanes (a, b, c, d) + of_nat (length bs)) (rest_of bs)"
    using True by (simp add: XXH64_def XXH64_stripes_eq l)
  have "(v1 s, v2 s, v3 s, v4 s) = (a, b, c, d)"
    using inv l by (simp add: hash_inv_def lanes_of_def)
  then show ?thesis
    using inv True le32_of_nat [OF n] unfolding one
    by (simp add: XXH64_digest_def hash_inv_def Let_def)
next
  case False
  then have "lanes_of s = (seed + PRIME64_1 + PRIME64_2, seed + PRIME64_2, seed + 0, seed - PRIME64_1)"
    and "take (memsize s) (mem64 s) = bs"
    using inv by (simp_all add: hash_inv_def stripes_of_short rest_of_short)
  then show ?thesis
    using inv False le32_of_nat [OF n]
    by (simp add: XXH64_digest_def XXH64_def hash_inv_def Let_def lanes_of_def)
qed

text \<open>
  C2: for every seed and every list of chunks (every partition of the byte sequence
  \<open>concat chunks\<close>, empty chunks included), reset, update on each chunk in order and
  digest give the value of the one-shot \<open>XXH64\<close> on the whole sequence. The length
  bound is that of \<open>size_t\<close> and of the 64-bit \<open>total_len\<close>.
\<close>

theorem XXH64_streaming_equivalence:
  "length (concat chunks) < 2 ^ 64 \<Longrightarrow> XXH64_streamed seed chunks = XXH64 (concat chunks) seed"
  using hash_inv_digest [OF hash_inv_foldl [OF hash_inv_reset, of seed chunks]]
  by (simp add: XXH64_streamed_def)

theorem XXH64_streaming_equivalence_witness:
  "length (concat [[1, 2, 3], [], [4, 5 :: byte]]) < 2 ^ 64 \<and>
   XXH64_streamed 7 [[1, 2, 3], [], [4, 5]] = XXH64 [1, 2, 3, 4, 5] 7"
  using XXH64_streaming_equivalence [of "[[1, 2, 3], [], [4, 5]]" 7]
  by simp

section \<open>Tier 1 of the translation cache\<close>

lemma find_if_le: "find_if P xs \<le> length xs"
  by (induction xs) auto

lemma find_if_end: "(find_if P xs = length xs) = (\<forall>x\<in>set xs. \<not> P x)"
proof (induction xs)
  case Nil
  then show ?case by simp
next
  case (Cons x xs)
  then show ?case using find_if_le [of P xs] by auto
qed

lemma find_if_lt: "find_if P xs \<noteq> length xs \<Longrightarrow> find_if P xs < length xs"
  using find_if_le [of P xs] by simp

lemma find_if_nth: "find_if P xs < length xs \<Longrightarrow> P (xs ! find_if P xs)"
  by (induction xs) (auto split: if_splits)

lemma find_if_first: "j < find_if P xs \<Longrightarrow> \<not> P (xs ! j)"
proof (induction xs arbitrary: j)
  case Nil
  then show ?case by simp
next
  case (Cons x xs)
  then show ?case by (cases j) (auto split: if_splits)
qed

lemma set_rotate_to_front:
  "i < length xs \<Longrightarrow> set (rotate_to_front xs i) = set xs"
proof -
  assume i: "i < length xs"
  have "set xs = set (take i xs @ xs ! i # drop (Suc i) xs)"
    using id_take_nth_drop [OF i] by simp
  then show ?thesis by (auto simp: rotate_to_front_def)
qed

lemma length_rotate_to_front: "i < length xs \<Longrightarrow> length (rotate_to_front xs i) = length xs"
  by (auto simp: rotate_to_front_def)

lemma set_erase: "set (erase xs i) \<subseteq> set xs"
  by (auto simp: erase_def dest: in_set_takeD in_set_dropD)

lemma length_erase: "i < length xs \<Longrightarrow> length (erase xs i) = length xs - 1"
  by (auto simp: erase_def)

text \<open>The entries after an insertion of a key that is not in the cache.\<close>

lemma save_new_key:
  assumes "\<forall>x\<in>set (l1_cache c). entry_key x \<noteq> entry_key e"
  shows "l1_cache (save_to_l1_cache now e c) =
     e\<lparr>last_access := now, access_count := 1\<rparr> #
       (if MAX_L1_CACHE_ENTRIES \<le> length (l1_cache c) then
          (if find_if (\<lambda>x. \<not> is_hot x) (rev (l1_cache c)) \<noteq> length (l1_cache c)
           then erase (l1_cache c)
                  (length (l1_cache c) - 1 - find_if (\<lambda>x. \<not> is_hot x) (rev (l1_cache c)))
           else butlast (l1_cache c))
        else l1_cache c)"
proof -
  have "find_if (\<lambda>x. x86_addr x = x86_addr e \<and> x86_hash x = x86_hash e) (l1_cache c)
      = length (l1_cache c)"
    using assms by (auto simp: find_if_end entry_key_def)
  then show ?thesis by (simp add: save_to_l1_cache_def Let_def)
qed

lemma save_old_key:
  assumes "\<not> (\<forall>x\<in>set (l1_cache c). entry_key x \<noteq> entry_key e)"
  shows "\<exists>i it. i < length (l1_cache c) \<and> entry_key it = entry_key (l1_cache c ! i) \<and>
     access_count it = access_count (l1_cache c ! i) + 1 \<and>
     is_hot it = (10 < access_count it) \<and>
     l1_cache (save_to_l1_cache now e c) = rotate_to_front ((l1_cache c)[i := it]) i"
proof -
  let ?i = "find_if (\<lambda>x. x86_addr x = x86_addr e \<and> x86_hash x = x86_hash e) (l1_cache c)"
  let ?it = "(l1_cache c ! ?i)\<lparr>arm_addr := arm_addr e, arm_size := arm_size e, last_access := now,
                            access_count := access_count (l1_cache c ! ?i) + 1,
                            is_hot := (10 < access_count (l1_cache c ! ?i) + 1)\<rparr>"
  have ne: "?i \<noteq> length (l1_cache c)"
    using assms by (auto simp: find_if_end entry_key_def)
  then have lt: "?i < length (l1_cache c)" by (rule find_if_lt)
  have "l1_cache (save_to_l1_cache now e c) = rotate_to_front ((l1_cache c)[?i := ?it]) ?i"
    using ne by (simp add: save_to_l1_cache_def Let_def)
  moreover have "entry_key ?it = entry_key (l1_cache c ! ?i)" by (simp add: entry_key_def)
  moreover have "access_count ?it = access_count (l1_cache c ! ?i) + 1" by simp
  moreover have "is_hot ?it = (10 < access_count ?it)" by simp
  ultimately show ?thesis using lt by blast
qed

lemma length_save_new:
  assumes new: "\<forall>x\<in>set (l1_cache c). entry_key x \<noteq> entry_key e"
    and le: "length (l1_cache c) \<le> MAX_L1_CACHE_ENTRIES"
  shows "length (l1_cache (save_to_l1_cache now e c)) =
      min (Suc (length (l1_cache c))) MAX_L1_CACHE_ENTRIES"
proof (cases "MAX_L1_CACHE_ENTRIES \<le> length (l1_cache c)")
  case False
  then show ?thesis using le by (simp add: save_new_key [OF new])
next
  case True
  then have pos: "0 < length (l1_cache c)" by (auto simp: MAX_L1_CACHE_ENTRIES_def)
  let ?j = "find_if (\<lambda>x. \<not> is_hot x) (rev (l1_cache c))"
  show ?thesis
  proof (cases "?j \<noteq> length (l1_cache c)")
    case True
    then have "length (l1_cache c) - 1 - ?j < length (l1_cache c)" using pos by simp
    then show ?thesis
      using True \<open>MAX_L1_CACHE_ENTRIES \<le> length (l1_cache c)\<close> le pos
      by (simp add: save_new_key [OF new] length_erase)
  next
    case False
    then show ?thesis
      using \<open>MAX_L1_CACHE_ENTRIES \<le> length (l1_cache c)\<close> le pos
      by (simp add: save_new_key [OF new])
  qed
qed

lemma keys_save:
  "entry_key ` set (l1_cache (save_to_l1_cache now e c)) \<subseteq>
     insert (entry_key e) (entry_key ` set (l1_cache c))"
proof (cases "\<forall>x\<in>set (l1_cache c). entry_key x \<noteq> entry_key e")
  case True
  let ?rest = "if MAX_L1_CACHE_ENTRIES \<le> length (l1_cache c) then
          (if find_if (\<lambda>x. \<not> is_hot x) (rev (l1_cache c)) \<noteq> length (l1_cache c)
           then erase (l1_cache c)
                  (length (l1_cache c) - 1 - find_if (\<lambda>x. \<not> is_hot x) (rev (l1_cache c)))
           else butlast (l1_cache c))
        else l1_cache c"
  have b: "set (butlast (l1_cache c)) \<subseteq> set (l1_cache c)"
    by (auto dest: in_set_butlastD)
  have "set ?rest \<subseteq> set (l1_cache c)"
    using b set_erase [of "l1_cache c"] by simp
  then have "entry_key ` set ?rest \<subseteq> entry_key ` set (l1_cache c)"
    by (rule image_mono)
  moreover have "entry_key (e\<lparr>last_access := now, access_count := 1\<rparr>) = entry_key e"
    by (simp add: entry_key_def)
  ultimately show ?thesis
    unfolding save_new_key [OF True] by (simp add: subset_insertI2)
next
  case False
  from save_old_key [OF False, of now]
  obtain i it where i: "i < length (l1_cache c)"
    and k: "entry_key it = entry_key (l1_cache c ! i)"
    and r: "l1_cache (save_to_l1_cache now e c) = rotate_to_front ((l1_cache c)[i := it]) i"
    by blast
  have "entry_key x \<in> entry_key ` set (l1_cache c)" if "x \<in> set ((l1_cache c)[i := it])" for x
  proof -
    from that set_update_subset_insert [of "l1_cache c" i it]
    have "x = it \<or> x \<in> set (l1_cache c)" by auto
    then show ?thesis
    proof
      assume "x = it"
      then have "entry_key x = entry_key (l1_cache c ! i)" using k by simp
      moreover have "l1_cache c ! i \<in> set (l1_cache c)" using i by (rule nth_mem)
      ultimately show ?thesis by (simp only: image_eqI)
    next
      assume "x \<in> set (l1_cache c)"
      then show ?thesis by simp
    qed
  qed
  then have "entry_key ` set ((l1_cache c)[i := it]) \<subseteq> entry_key ` set (l1_cache c)"
    by blast
  then show ?thesis
    unfolding r using i by (simp add: set_rotate_to_front subset_insertI2)
qed


lemma find_if_split:
  "find_if P xs \<noteq> length xs \<Longrightarrow>
   \<exists>a x b. xs = a @ x # b \<and> length a = find_if P xs \<and> P x \<and> (\<forall>y\<in>set a. \<not> P y)"
proof (induction xs)
  case Nil
  then show ?case by simp
next
  case (Cons z xs)
  show ?case
  proof (cases "P z")
    case True
    then have "z # xs = [] @ z # xs \<and> length ([] :: 'a list) = find_if P (z # xs) \<and> P z \<and>
        (\<forall>y\<in>set []. \<not> P y)" by simp
    then show ?thesis by blast
  next
    case False
    with Cons.prems have "find_if P xs \<noteq> length xs" by simp
    from Cons.IH [OF this] obtain a x b where
      "xs = a @ x # b" "length a = find_if P xs" "P x" "\<forall>y\<in>set a. \<not> P y" by blast
    with False have "z # xs = (z # a) @ x # b \<and> length (z # a) = find_if P (z # xs) \<and> P x \<and>
        (\<forall>y\<in>set (z # a). \<not> P y)" by simp
    then show ?thesis by blast
  qed
qed

lemma evict_cold:
  assumes "find_if (\<lambda>x. \<not> is_hot x) (rev l) \<noteq> length l"
  shows "\<exists>pre x post. l = pre @ x # post \<and> \<not> is_hot x \<and> (\<forall>y\<in>set post. is_hot y) \<and>
     erase l (length l - 1 - find_if (\<lambda>x. \<not> is_hot x) (rev l)) = pre @ post"
proof -
  let ?j = "find_if (\<lambda>x. \<not> is_hot x) (rev l)"
  from assms have "?j \<noteq> length (rev l)" by simp
  from find_if_split [OF this] obtain a x b where
    r: "rev l = a @ x # b" and la: "length a = ?j" and x: "\<not> is_hot x"
    and a: "\<forall>y\<in>set a. is_hot y" by auto
  have "rev (rev l) = rev (a @ x # b)" using r by (rule arg_cong)
  then have l: "l = rev b @ x # rev a" by simp
  have idx: "length l - 1 - ?j = length b"
    using la [symmetric] by (subst l) simp
  have "erase (rev b @ x # rev a) (length b) = rev b @ rev a"
    by (simp add: erase_def)
  then have "erase l (length l - 1 - ?j) = rev b @ rev a"
    unfolding idx using l by simp
  moreover have "\<forall>y\<in>set (rev a). is_hot y" using a by simp
  ultimately show ?thesis using l x by blast
qed

lemma store_all_length:
  assumes "distinct (map store_key inss)"
    and "\<forall>k\<in>set (map store_key inss). k \<notin> entry_key ` set (l1_cache c)"
    and "length (l1_cache c) \<le> MAX_L1_CACHE_ENTRIES"
  shows "length (l1_cache (store_all binary_id inss c)) =
     min (length (l1_cache c) + length inss) MAX_L1_CACHE_ENTRIES"
  using assms
proof (induction inss arbitrary: c)
  case Nil
  then show ?case by (simp add: store_all_def)
next
  case (Cons a inss)
  obtain now addr x86_code host_addr arm_code where a: "a = (now, addr, x86_code, host_addr, arm_code)"
    by (cases a) auto
  let ?e = "\<lparr>x86_addr = addr, arm_addr = host_addr, x86_size = of_nat (length x86_code),
        arm_size = of_nat (length arm_code), x86_hash = hash_block x86_code, last_access = now,
        access_count = 1, is_hot = False, flags = 0\<rparr>"
  let ?c = "save_to_l1_cache now ?e c"
  have key: "entry_key ?e = store_key a" by (simp add: a entry_key_def store_key_def)
  have new: "\<forall>x\<in>set (l1_cache c). entry_key x \<noteq> entry_key ?e"
  proof
    fix x assume "x \<in> set (l1_cache c)"
    then have "entry_key x \<in> entry_key ` set (l1_cache c)" by (rule imageI)
    moreover have "store_key a \<notin> entry_key ` set (l1_cache c)" using Cons.prems(2) by simp
    ultimately show "entry_key x \<noteq> entry_key ?e" unfolding key by metis
  qed
  have len: "length (l1_cache ?c) = min (Suc (length (l1_cache c))) MAX_L1_CACHE_ENTRIES"
    using length_save_new [OF new Cons.prems(3)] .
  have keys: "entry_key ` set (l1_cache ?c) \<subseteq> insert (store_key a) (entry_key ` set (l1_cache c))"
    using keys_save [of now ?e c] unfolding key .
  have d: "distinct (map store_key inss)" using Cons.prems(1) by simp
  have fresh: "\<forall>k\<in>set (map store_key inss). k \<notin> entry_key ` set (l1_cache ?c)"
  proof
    fix k assume k: "k \<in> set (map store_key inss)"
    have "store_key a \<notin> set (map store_key inss)" using Cons.prems(1) by simp
    with k have "k \<noteq> store_key a" by metis
    moreover have "k \<notin> entry_key ` set (l1_cache c)" using k Cons.prems(2) by auto
    ultimately show "k \<notin> entry_key ` set (l1_cache ?c)" using keys by blast
  qed
  have le: "length (l1_cache ?c) \<le> MAX_L1_CACHE_ENTRIES" using len by simp
  have step: "store_all binary_id (a # inss) c = store_all binary_id inss ?c"
    by (simp add: store_all_def a store_def)
  show ?case
    unfolding step Cons.IH [OF d fresh le] len by simp
qed


lemma evict_all_cold:
  assumes cold: "\<forall>x\<in>set l. \<not> is_hot x" and ne: "l \<noteq> []"
  shows "find_if (\<lambda>x. \<not> is_hot x) (rev l) \<noteq> length l \<and>
     erase l (length l - 1 - find_if (\<lambda>x. \<not> is_hot x) (rev l)) = butlast l"
proof -
  obtain xs x where l: "l = xs @ [x]" using ne by (metis rev_exhaust)
  then have "\<not> is_hot x" using cold by simp
  then have "find_if (\<lambda>x. \<not> is_hot x) (rev l) = 0" by (simp add: l)
  then show ?thesis by (simp add: l erase_def)
qed

lemma store_all_survivors:
  assumes "distinct (map store_key inss)"
    and "\<forall>k\<in>set (map store_key inss). k \<notin> entry_key ` set (l1_cache c)"
    and "length (l1_cache c) \<le> MAX_L1_CACHE_ENTRIES"
    and "\<forall>x\<in>set (l1_cache c). \<not> is_hot x"
  shows "map entry_key (l1_cache (store_all binary_id inss c)) =
     take MAX_L1_CACHE_ENTRIES (rev (map store_key inss) @ map entry_key (l1_cache c))"
  using assms
proof (induction inss arbitrary: c)
  case Nil
  then show ?case by (simp add: store_all_def)
next
  case (Cons a inss)
  obtain now addr x86_code host_addr arm_code where a: "a = (now, addr, x86_code, host_addr, arm_code)"
    by (cases a) auto
  let ?e = "\<lparr>x86_addr = addr, arm_addr = host_addr, x86_size = of_nat (length x86_code),
        arm_size = of_nat (length arm_code), x86_hash = hash_block x86_code, last_access = now,
        access_count = 1, is_hot = False, flags = 0\<rparr>"
  let ?c = "save_to_l1_cache now ?e c"
  let ?l = "l1_cache c"
  have key: "entry_key ?e = store_key a" by (simp add: a entry_key_def store_key_def)
  have new: "\<forall>x\<in>set ?l. entry_key x \<noteq> entry_key ?e"
  proof
    fix x assume "x \<in> set ?l"
    then have "entry_key x \<in> entry_key ` set ?l" by (rule imageI)
    moreover have "store_key a \<notin> entry_key ` set ?l" using Cons.prems(2) by simp
    ultimately show "entry_key x \<noteq> entry_key ?e" unfolding key by metis
  qed
  have l1: "l1_cache ?c = ?e\<lparr>last_access := now, access_count := 1\<rparr> #
      (if MAX_L1_CACHE_ENTRIES \<le> length ?l then butlast ?l else ?l)"
  proof (cases "MAX_L1_CACHE_ENTRIES \<le> length ?l")
    case True
    then have "?l \<noteq> []" by (auto simp: MAX_L1_CACHE_ENTRIES_def)
    from evict_all_cold [OF Cons.prems(4) this] True
    show ?thesis by (simp add: save_new_key [OF new])
  next
    case False
    then show ?thesis by (simp add: save_new_key [OF new])
  qed
  have keys1: "map entry_key (l1_cache ?c) =
      take MAX_L1_CACHE_ENTRIES (store_key a # map entry_key ?l)"
  proof (cases "MAX_L1_CACHE_ENTRIES \<le> length ?l")
    case True
    then have eq: "length ?l = MAX_L1_CACHE_ENTRIES" using Cons.prems(3) by simp
    have pos: "0 < MAX_L1_CACHE_ENTRIES" by (simp add: MAX_L1_CACHE_ENTRIES_def)
    obtain n where n: "MAX_L1_CACHE_ENTRIES = Suc n" using pos by (cases MAX_L1_CACHE_ENTRIES) auto
    have "length ?l - 1 = n" using eq n by arith
    then have "map entry_key (butlast ?l) = take n (map entry_key ?l)"
      by (simp only: butlast_conv_take take_map)
    then show ?thesis using True key unfolding l1 n by (simp add: entry_key_def)
  next
    case False
    then show ?thesis using key unfolding l1
      by (cases MAX_L1_CACHE_ENTRIES) (simp_all add: entry_key_def)
  qed
  have len: "length (l1_cache ?c) \<le> MAX_L1_CACHE_ENTRIES"
    using length_save_new [OF new Cons.prems(3), of now] by simp
  have keys: "entry_key ` set (l1_cache ?c) \<subseteq> insert (store_key a) (entry_key ` set ?l)"
    using keys_save [of now ?e c] unfolding key .
  have d: "distinct (map store_key inss)" using Cons.prems(1) by simp
  have fresh: "\<forall>k\<in>set (map store_key inss). k \<notin> entry_key ` set (l1_cache ?c)"
  proof
    fix k assume k: "k \<in> set (map store_key inss)"
    have "store_key a \<notin> set (map store_key inss)" using Cons.prems(1) by simp
    with k have "k \<noteq> store_key a" by metis
    moreover have "k \<notin> entry_key ` set ?l" using k Cons.prems(2) by auto
    ultimately show "k \<notin> entry_key ` set (l1_cache ?c)" using keys by blast
  qed
  have cold: "\<forall>x\<in>set (l1_cache ?c). \<not> is_hot x"
    using Cons.prems(4) unfolding l1 by (auto dest: in_set_butlastD)
  have step: "store_all binary_id (a # inss) c = store_all binary_id inss ?c"
    by (simp add: store_all_def a store_def)
  have tk: "take m (xs @ take m ys) = take m (xs @ ys)" for m and xs ys :: "'a list"
    by (simp add: min_def) 
  show ?case
    unfolding step Cons.IH [OF d fresh len cold] keys1 by (simp add: tk)
qed

text \<open>The recency order of the tier-1 vector.\<close>

lemma rotate_to_front_split:
  "length pre = i \<Longrightarrow> rotate_to_front ((pre @ x # post)[i := y]) i = y # pre @ post"
  by (auto simp: rotate_to_front_def list_update_append nth_append)

lemma lookup_moves_to_front:
  assumes "fst (lookup_l1_cache now addr block_hash c) \<noteq> None"
  shows "\<exists>pre x post. l1_cache c = pre @ x # post \<and>
     (x86_addr x = addr \<and> x86_hash x = block_hash) \<and>
     list_all (\<lambda>y. \<not> (x86_addr y = addr \<and> x86_hash y = block_hash)) pre \<and>
     fst (lookup_l1_cache now addr block_hash c) = Some x \<and>
     l1_cache (snd (lookup_l1_cache now addr block_hash c)) = touched now x # pre @ post"
proof -
  let ?P = "\<lambda>y. x86_addr y = addr \<and> x86_hash y = block_hash"
  let ?i = "find_if ?P (l1_cache c)"
  from assms have ne: "?i \<noteq> length (l1_cache c)"
    by (auto simp: lookup_l1_cache_def Let_def split: if_splits)
  from find_if_split [OF ne] obtain pre x post where
    l: "l1_cache c = pre @ x # post" and i: "length pre = ?i" and x: "?P x"
    and pre: "\<forall>y\<in>set pre. \<not> ?P y" by blast
  have nth: "l1_cache c ! ?i = x" using l i by (metis nth_append_length)
  have "l1_cache (snd (lookup_l1_cache now addr block_hash c)) =
      rotate_to_front ((l1_cache c)[?i := touched now x]) ?i"
    using ne nth by (simp add: lookup_l1_cache_def Let_def touched_def)
  also have "\<dots> = touched now x # pre @ post"
    using rotate_to_front_split [OF i, of x post "touched now x"] l by simp
  finally have r: "l1_cache (snd (lookup_l1_cache now addr block_hash c)) =
      touched now x # pre @ post" .
  have f: "fst (lookup_l1_cache now addr block_hash c) = Some x"
    using ne nth by (simp add: lookup_l1_cache_def Let_def)
  from l x pre r f show ?thesis by (auto simp: list_all_iff)
qed

lemma save_moves_to_front:
  assumes "\<not> (\<forall>x\<in>set (l1_cache c). entry_key x \<noteq> entry_key e)"
  shows "\<exists>pre x post. l1_cache c = pre @ x # post \<and> entry_key x = entry_key e \<and>
     list_all (\<lambda>y. entry_key y \<noteq> entry_key e) pre \<and>
     l1_cache (save_to_l1_cache now e c) =
       (touched now x)\<lparr>arm_addr := arm_addr e, arm_size := arm_size e\<rparr> # pre @ post"
proof -
  let ?P = "\<lambda>y. x86_addr y = x86_addr e \<and> x86_hash y = x86_hash e"
  let ?i = "find_if ?P (l1_cache c)"
  from assms have ne: "?i \<noteq> length (l1_cache c)"
    by (auto simp: find_if_end entry_key_def)
  from find_if_split [OF ne] obtain pre x post where
    l: "l1_cache c = pre @ x # post" and i: "length pre = ?i" and x: "?P x"
    and pre: "\<forall>y\<in>set pre. \<not> ?P y" by blast
  let ?y = "(touched now x)\<lparr>arm_addr := arm_addr e, arm_size := arm_size e\<rparr>"
  have nth: "l1_cache c ! ?i = x" using l i by (metis nth_append_length)
  have eq: "x\<lparr>arm_addr := arm_addr e, arm_size := arm_size e, last_access := now,
        access_count := access_count x + 1, is_hot := (10 < access_count x + 1)\<rparr> = ?y"
    by (cases x) (simp add: touched_def)
  have "l1_cache (save_to_l1_cache now e c) = rotate_to_front ((l1_cache c)[?i := ?y]) ?i"
    using ne nth by (simp add: save_to_l1_cache_def Let_def eq)
  also have "\<dots> = ?y # pre @ post"
    using rotate_to_front_split [OF i, of x post ?y] l by simp
  finally have r: "l1_cache (save_to_l1_cache now e c) = ?y # pre @ post" .
  from l x pre r show ?thesis by (auto simp: list_all_iff entry_key_def)
qed

lemma recency_front:
  assumes o: "recency_ordered (pre @ x # post)" and n: "\<forall>y\<in>set (pre @ x # post). last_access y \<le> now"
    and y: "last_access y = now"
  shows "recency_ordered (y # pre @ post)"
  using assms by (auto simp: recency_ordered_def sorted_wrt_append)

lemma recency_remove:
  "recency_ordered (pre @ x # post) \<Longrightarrow> recency_ordered (pre @ post)"
  by (auto simp: recency_ordered_def sorted_wrt_append)

lemma recency_butlast: "recency_ordered l \<Longrightarrow> recency_ordered (butlast l)"
proof (cases l rule: rev_cases)
  case Nil
  then show "recency_ordered l \<Longrightarrow> recency_ordered (butlast l)" by simp
next
  case (snoc xs x)
  then show "recency_ordered l \<Longrightarrow> recency_ordered (butlast l)"
    by (auto simp: recency_ordered_def sorted_wrt_append)
qed

lemma recency_new:
  assumes o: "recency_ordered l" and n: "\<forall>y\<in>set l. last_access y \<le> now"
    and s: "set l' \<subseteq> set l" and o': "recency_ordered l'" and y: "last_access y = now"
  shows "recency_ordered (y # l')"
  using assms by (auto simp: recency_ordered_def)

lemma recency_save:
  assumes o: "recency_ordered (l1_cache c)" and n: "\<forall>y\<in>set (l1_cache c). last_access y \<le> now"
  shows "recency_ordered (l1_cache (save_to_l1_cache now e c)) \<and>
         (\<forall>y\<in>set (l1_cache (save_to_l1_cache now e c)). last_access y \<le> now)"
proof (cases "\<forall>x\<in>set (l1_cache c). entry_key x \<noteq> entry_key e")
  case True
  let ?j = "find_if (\<lambda>x. \<not> is_hot x) (rev (l1_cache c))"
  let ?rest = "if MAX_L1_CACHE_ENTRIES \<le> length (l1_cache c) then
          (if ?j \<noteq> length (l1_cache c)
           then erase (l1_cache c) (length (l1_cache c) - 1 - ?j)
           else butlast (l1_cache c))
        else l1_cache c"
  have sub: "set ?rest \<subseteq> set (l1_cache c)"
    using set_erase [of "l1_cache c"] by (auto dest: in_set_butlastD)
  have ord: "recency_ordered ?rest"
  proof (cases "MAX_L1_CACHE_ENTRIES \<le> length (l1_cache c) \<and> ?j \<noteq> length (l1_cache c)")
    case True
    then have j: "?j \<noteq> length (l1_cache c)" by simp
    from evict_cold [OF j] obtain pre x post where
      l: "l1_cache c = pre @ x # post"
      and e: "erase (l1_cache c) (length (l1_cache c) - 1 - ?j) = pre @ post" by blast
    have "recency_ordered (pre @ post)" using o unfolding l by (rule recency_remove)
    then show ?thesis using True e by simp
  next
    case False
    then show ?thesis using o recency_butlast [OF o] by auto
  qed
  have r: "l1_cache (save_to_l1_cache now e c) = e\<lparr>last_access := now, access_count := 1\<rparr> # ?rest"
    by (rule save_new_key [OF True])
  have "recency_ordered (e\<lparr>last_access := now, access_count := 1\<rparr> # ?rest)"
    by (rule recency_new [OF o n sub ord]) simp
  moreover have "\<forall>y\<in>set (e\<lparr>last_access := now, access_count := 1\<rparr> # ?rest). last_access y \<le> now"
    using n sub by auto
  ultimately show ?thesis unfolding r by simp
next
  case False
  from save_moves_to_front [OF False, of now] obtain pre x post where
    l: "l1_cache c = pre @ x # post"
    and r: "l1_cache (save_to_l1_cache now e c) =
       (touched now x)\<lparr>arm_addr := arm_addr e, arm_size := arm_size e\<rparr> # pre @ post" by blast
  have "recency_ordered ((touched now x)\<lparr>arm_addr := arm_addr e, arm_size := arm_size e\<rparr> # pre @ post)"
    by (rule recency_front [OF o [unfolded l] n [unfolded l]]) (simp add: touched_def)
  moreover have "\<forall>y\<in>set ((touched now x)\<lparr>arm_addr := arm_addr e, arm_size := arm_size e\<rparr> # pre @ post).
      last_access y \<le> now"
    using n unfolding l by (auto simp: touched_def)
  ultimately show ?thesis unfolding r by simp
qed

lemma recency_lookup_l1:
  assumes o: "recency_ordered (l1_cache c)" and n: "\<forall>y\<in>set (l1_cache c). last_access y \<le> now"
  shows "recency_ordered (l1_cache (snd (lookup_l1_cache now addr block_hash c))) \<and>
         (\<forall>y\<in>set (l1_cache (snd (lookup_l1_cache now addr block_hash c))). last_access y \<le> now)"
proof (cases "fst (lookup_l1_cache now addr block_hash c) = None")
  case True
  then have "snd (lookup_l1_cache now addr block_hash c) = c"
    by (auto simp: lookup_l1_cache_def Let_def split: if_splits)
  then show ?thesis using o n by simp
next
  case False
  from lookup_moves_to_front [OF False] obtain pre x post where
    l: "l1_cache c = pre @ x # post"
    and r: "l1_cache (snd (lookup_l1_cache now addr block_hash c)) = touched now x # pre @ post"
    by blast
  have "recency_ordered (touched now x # pre @ post)"
    by (rule recency_front [OF o [unfolded l] n [unfolded l]]) (simp add: touched_def)
  moreover have "\<forall>y\<in>set (touched now x # pre @ post). last_access y \<le> now"
    using n unfolding l by (auto simp: touched_def)
  ultimately show ?thesis unfolding r by simp
qed

lemma recency_oldest:
  assumes "recency_ordered (pre @ x # post)" and "y \<in> set pre \<or> y = x"
  shows "last_access x \<le> last_access y"
  using assms by (auto simp: recency_ordered_def sorted_wrt_append)

text \<open>
  C8: with the tier-1 capacity 1024, more than 1024 \<open>store\<close> calls with distinct keys
  into an empty cache, with no other access, leave exactly 1024 entries, namely the 1024
  most recently stored keys, most recent first. The vector is kept in recency order: when
  the \<open>last_access\<close> stamps do not increase from front to back and the clock is not behind
  any stamp, they still do not increase after \<open>store\<close>, after a tier-1 lookup and after
  \<open>save_to_l1_cache\<close>; a tier-1 hit moves the entry it found to the front and keeps the
  order of the others. An insertion of a new key into a full vector in recency order removes
  a cold entry that has only hot entries behind it and whose stamp is the least among the
  cold entries; when every entry is hot it removes the last entry, whose stamp is the least
  of all. The new entry goes to the front.
\<close>

theorem l1_eviction_fairness:
  "(l1_cache c = [] \<and> distinct (map store_key inss) \<and> MAX_L1_CACHE_ENTRIES < length inss \<longrightarrow>
      length (l1_cache (store_all binary_id inss c)) = 1024 \<and>
      map entry_key (l1_cache (store_all binary_id inss c)) = take 1024 (rev (map store_key inss))) \<and>
   (recency_ordered (l1_cache c1) \<and> (\<forall>y\<in>set (l1_cache c1). last_access y \<le> now) \<longrightarrow>
      recency_ordered (l1_cache (store now binary_id addr x86_code host_addr arm_code c1)) \<and>
      recency_ordered (l1_cache (snd (lookup_l1_cache now addr block_hash c1))) \<and>
      recency_ordered (l1_cache (save_to_l1_cache now e c1))) \<and>
   (fst (lookup_l1_cache now addr block_hash c1) \<noteq> None \<longrightarrow>
      (\<exists>pre x post. l1_cache c1 = pre @ x # post \<and>
         fst (lookup_l1_cache now addr block_hash c1) = Some x \<and>
         l1_cache (snd (lookup_l1_cache now addr block_hash c1)) = touched now x # pre @ post)) \<and>
   (MAX_L1_CACHE_ENTRIES \<le> length (l1_cache c2) \<and> recency_ordered (l1_cache c2) \<and>
    (\<forall>x\<in>set (l1_cache c2). entry_key x \<noteq> entry_key e) \<longrightarrow>
      (if \<exists>x\<in>set (l1_cache c2). \<not> is_hot x
       then \<exists>pre x post. l1_cache c2 = pre @ x # post \<and> \<not> is_hot x \<and> (\<forall>y\<in>set post. is_hot y) \<and>
              (\<forall>y\<in>set (l1_cache c2). \<not> is_hot y \<longrightarrow> last_access x \<le> last_access y) \<and>
              l1_cache (save_to_l1_cache now e c2) =
                e\<lparr>last_access := now, access_count := 1\<rparr> # pre @ post
       else (\<forall>y\<in>set (l1_cache c2). last_access (last (l1_cache c2)) \<le> last_access y) \<and>
            l1_cache (save_to_l1_cache now e c2) =
                e\<lparr>last_access := now, access_count := 1\<rparr> # butlast (l1_cache c2)))"
proof (intro conjI impI)
  assume h: "l1_cache c = [] \<and> distinct (map store_key inss) \<and> MAX_L1_CACHE_ENTRIES < length inss"
  then show "length (l1_cache (store_all binary_id inss c)) = 1024"
    using store_all_length [of inss c binary_id] by (simp add: MAX_L1_CACHE_ENTRIES_def)
  from h show "map entry_key (l1_cache (store_all binary_id inss c)) =
      take 1024 (rev (map store_key inss))"
    using store_all_survivors [of inss c binary_id] by (simp add: MAX_L1_CACHE_ENTRIES_def)
next
  assume h: "recency_ordered (l1_cache c1) \<and> (\<forall>y\<in>set (l1_cache c1). last_access y \<le> now)"
  then show "recency_ordered (l1_cache (store now binary_id addr x86_code host_addr arm_code c1))"
    unfolding store_def using recency_save by blast
  from h show "recency_ordered (l1_cache (snd (lookup_l1_cache now addr block_hash c1)))"
    using recency_lookup_l1 by blast
  from h show "recency_ordered (l1_cache (save_to_l1_cache now e c1))"
    using recency_save by blast
next
  assume "fst (lookup_l1_cache now addr block_hash c1) \<noteq> None"
  from lookup_moves_to_front [OF this]
  show "\<exists>pre x post. l1_cache c1 = pre @ x # post \<and>
         fst (lookup_l1_cache now addr block_hash c1) = Some x \<and>
         l1_cache (snd (lookup_l1_cache now addr block_hash c1)) = touched now x # pre @ post"
    by blast
next
  assume h: "MAX_L1_CACHE_ENTRIES \<le> length (l1_cache c2) \<and> recency_ordered (l1_cache c2) \<and>
    (\<forall>x\<in>set (l1_cache c2). entry_key x \<noteq> entry_key e)"
  then have new: "\<forall>x\<in>set (l1_cache c2). entry_key x \<noteq> entry_key e"
    and ord: "recency_ordered (l1_cache c2)" by simp_all
  let ?l = "l1_cache c2"
  let ?j = "find_if (\<lambda>x. \<not> is_hot x) (rev ?l)"
  let ?new = "e\<lparr>last_access := now, access_count := 1\<rparr>"
  show "if \<exists>x\<in>set ?l. \<not> is_hot x
       then \<exists>pre x post. ?l = pre @ x # post \<and> \<not> is_hot x \<and> (\<forall>y\<in>set post. is_hot y) \<and>
              (\<forall>y\<in>set ?l. \<not> is_hot y \<longrightarrow> last_access x \<le> last_access y) \<and>
              l1_cache (save_to_l1_cache now e c2) = ?new # pre @ post
       else (\<forall>y\<in>set ?l. last_access (last ?l) \<le> last_access y) \<and>
            l1_cache (save_to_l1_cache now e c2) = ?new # butlast ?l"
  proof (cases "\<exists>x\<in>set ?l. \<not> is_hot x")
    case True
    then have j: "?j \<noteq> length ?l"
      using find_if_end [of "\<lambda>x. \<not> is_hot x" "rev ?l"] by simp
    from evict_cold [OF j] obtain pre x post where
      l: "?l = pre @ x # post" and x: "\<not> is_hot x" and post: "\<forall>y\<in>set post. is_hot y"
      and er: "erase ?l (length ?l - 1 - ?j) = pre @ post" by blast
    have old: "\<forall>y\<in>set ?l. \<not> is_hot y \<longrightarrow> last_access x \<le> last_access y"
    proof (intro ballI impI)
      fix y assume y: "y \<in> set ?l" and c: "\<not> is_hot y"
      then have "y \<in> set pre \<or> y = x" using post unfolding l by auto
      with ord [unfolded l] show "last_access x \<le> last_access y" by (rule recency_oldest)
    qed
    have r: "l1_cache (save_to_l1_cache now e c2) = ?new # pre @ post"
      using h j er by (simp add: save_new_key [OF new])
    from l x post old r
    have "?l = pre @ x # post \<and> \<not> is_hot x \<and> (\<forall>y\<in>set post. is_hot y) \<and>
              (\<forall>y\<in>set ?l. \<not> is_hot y \<longrightarrow> last_access x \<le> last_access y) \<and>
              l1_cache (save_to_l1_cache now e c2) = ?new # pre @ post" by (intro conjI)
    then have "\<exists>pre x post. ?l = pre @ x # post \<and> \<not> is_hot x \<and> (\<forall>y\<in>set post. is_hot y) \<and>
              (\<forall>y\<in>set ?l. \<not> is_hot y \<longrightarrow> last_access x \<le> last_access y) \<and>
              l1_cache (save_to_l1_cache now e c2) = ?new # pre @ post"
      by (rule_tac x = pre in exI, rule_tac x = x in exI, rule_tac x = post in exI)
    then show ?thesis using True by (simp only: if_True)
  next
    case False
    then have j: "?j = length ?l"
      using find_if_end [of "\<lambda>x. \<not> is_hot x" "rev ?l"] by simp
    have ne: "?l \<noteq> []" using h by (auto simp: MAX_L1_CACHE_ENTRIES_def)
    then have l: "butlast ?l @ last ?l # [] = ?l" by simp
    have old: "\<forall>y\<in>set ?l. last_access (last ?l) \<le> last_access y"
    proof
      fix y assume "y \<in> set ?l"
      then have "y \<in> set (butlast ?l @ last ?l # [])" using l by simp
      then have "y \<in> set (butlast ?l) \<or> y = last ?l" by auto
      moreover have "recency_ordered (butlast ?l @ last ?l # [])" using ord l by simp
      ultimately show "last_access (last ?l) \<le> last_access y" by (rule recency_oldest [rotated])
    qed
    have r: "l1_cache (save_to_l1_cache now e c2) = ?new # butlast ?l"
      using h j by (simp add: save_new_key [OF new])
    have "(\<forall>y\<in>set ?l. last_access (last ?l) \<le> last_access y) \<and>
            l1_cache (save_to_l1_cache now e c2) = ?new # butlast ?l"
      using old r by (intro conjI)
    then show ?thesis using False by simp
  qed
qed


section \<open>Tier 2 of the translation cache, checkpoint and promotion\<close>

lemmas scenario_defs =
  lookup_def lookup_l1_cache_def lookup_l2_cache_def clear_def store_def save_to_l1_cache_def
  checkpoint_def save_l2_cache_def demo_cache_def demo_fs_def demo_arena_def Let_def
  MAX_L1_CACHE_ENTRIES_def read_entries_def read_payload_def entry_of_file_entry_def
  CACHE_MAGIC_def CACHE_VERSION_def rotate_to_front_def erase_def

text \<open>
  C1 fails on the code. Two four-byte blocks are translated into the arena one after the
  other and stored; \<open>checkpoint\<close> writes the tier-1 entries, most recently used first,
  with \<open>arm_offset\<close> the running sum of their sizes, followed by the arena in its own
  order. After \<open>clear\<close>, the lookup of the second block is a tier-2 hit that reads the
  bytes of the first block, \<open>01 02 03 04\<close>, where \<open>05 06 07 08\<close> were stored.
\<close>

theorem checkpoint_lookup_reads_other_block:
  "take 4 (drop 4 demo_arena) = [5, 6, 7, 8] \<and>
   (case lookup 4 ''id'' 0x1010 [0xC3] [] (clear two_blocks_cache)
           (checkpoint 3 ''id'' demo_arena two_blocks_cache demo_fs) of
      (r, arm_code, c, fs) \<Rightarrow> found r \<and> level r = L2_PERSISTENT \<and> arm_code = [1, 2, 3, 4])"
  by (simp add: scenario_defs two_blocks_cache_def)

lemma lookup_single_hit:
  "x86_addr e = addr \<Longrightarrow> x86_hash e = hash_block code \<Longrightarrow>
   fst (snd (snd (lookup now binary_id addr code arm_code
      \<lparr>cache_directory = d, l1_cache = [e], binary_cache_map = m, l1_hits = h1, l2_hits = h2,
       misses = ms\<rparr> fs))) =
   \<lparr>cache_directory = d,
    l1_cache = [e\<lparr>last_access := now, access_count := access_count e + 1,
                  is_hot := (10 < access_count e + 1)\<rparr>],
    binary_cache_map = m, l1_hits = h1 + 1, l2_hits = h2, misses = ms\<rparr>"
  by (simp add: lookup_def lookup_l1_cache_def Let_def rotate_to_front_def)

lemma funpow_ten: "(f ^^ 10) x = f (f (f (f (f (f (f (f (f (f x)))))))))"
  by (simp add: eval_nat_numeral)

lemma hot_block_cache_eq:
  "hot_block_cache =
     \<lparr>cache_directory = ''./cache'',
      l1_cache = [\<lparr>x86_addr = 0x1000, arm_addr = 0x7000, x86_size = 2, arm_size = 4,
                   x86_hash = hash_block [0x90, 0xC3], last_access = 2, access_count = 11,
                   is_hot = True, flags = 0\<rparr>],
      binary_cache_map = [''id'' \<mapsto> ''./cache/id.cache''], l1_hits = 10, l2_hits = 0,
      misses = 0\<rparr>"
proof -
  have "store 1 ''id'' 0x1000 [0x90, 0xC3] 0x7000 [1, 2, 3, 4] demo_cache =
     \<lparr>cache_directory = ''./cache'',
      l1_cache = [\<lparr>x86_addr = 0x1000, arm_addr = 0x7000, x86_size = 2, arm_size = 4,
                   x86_hash = hash_block [0x90, 0xC3], last_access = 1, access_count = 1,
                   is_hot = False, flags = 0\<rparr>],
      binary_cache_map = [''id'' \<mapsto> ''./cache/id.cache''], l1_hits = 0, l2_hits = 0,
      misses = 0\<rparr>"
    by (simp add: store_def save_to_l1_cache_def demo_cache_def Let_def MAX_L1_CACHE_ENTRIES_def)
  then show ?thesis
    by (simp add: hot_block_cache_def funpow_ten lookup_single_hit)
qed

text \<open>
  C7 fails on the code. A block is stored and looked up ten times (access counter 11,
  hot, and the invariant holds); after \<open>checkpoint\<close> and \<open>clear\<close> the next lookup is
  a tier-2 hit whose promotion into tier 1 resets the counter to 1 and keeps the hot flag
  computed from the persisted counter: the entry is hot with access counter 1.
\<close>

theorem promotion_breaks_hot_flag:
  "list_all hot_flag_ok (l1_cache hot_block_cache) \<and>
   (case lookup 4 ''id'' 0x1000 [0x90, 0xC3] [] (clear hot_block_cache)
           (checkpoint 3 ''id'' demo_arena hot_block_cache demo_fs) of
      (r, arm_code, c, fs) \<Rightarrow>
        level r = L2_PERSISTENT \<and>
        map (\<lambda>e. (access_count e, is_hot e)) (l1_cache c) = [(1, True)] \<and>
        \<not> list_all hot_flag_ok (l1_cache c))"
  unfolding hot_block_cache_eq
  by (simp add: scenario_defs hot_flag_ok_def)

text \<open>
  C9, as stated, fails: a file whose header fingerprint is 1, looked up on behalf of a
  binary whose fingerprint is 2, is a tier-2 hit, and the lookup rewrites the file.
\<close>

theorem l2_lookup_ignores_fingerprint_counterexample:
  "files foreign_fs ''./cache/id.cache'' = Some foreign_file \<and>
   hdr_x86_hash (cf_header foreign_file) \<noteq> 2 \<and>
   (case lookup_l2_cache 5 ''./cache/id.cache'' 0x1000 7 [] 0 foreign_fs of
      (r, hits, fs) \<Rightarrow>
        map_option snd r = Some [1, 2, 3, 4] \<and> hits = 1 \<and>
        files fs ''./cache/id.cache'' \<noteq> files foreign_fs ''./cache/id.cache'')"
  by (simp add: scenario_defs foreign_fs_def foreign_file_def)

text \<open>
  C9, amended: when the magic number or the version of the header does not match,
  \<open>lookup_l2_cache\<close> and \<open>load_l2_cache\<close> report a miss and leave the file system as it
  was; when the header's binary fingerprint differs from a supplied (non-zero) expected
  fingerprint, \<open>load_l2_cache\<close> reports a miss and leaves the file system as it was.
  \<open>lookup_l2_cache\<close> takes no expected fingerprint.
\<close>

theorem l2_integrity_rejection:
  "(files fs path = Some f \<and>
    (magic (cf_header f) \<noteq> CACHE_MAGIC \<or> version (cf_header f) \<noteq> CACHE_VERSION) \<longrightarrow>
      lookup_l2_cache now path addr block_hash arm_code hits fs = (None, hits, fs) \<and>
      load_l2_cache now path expected_hash fs = (None, fs)) \<and>
   (files fs path = Some f \<and> expected_hash \<noteq> 0 \<and>
    hdr_x86_hash (cf_header f) \<noteq> expected_hash \<longrightarrow>
      load_l2_cache now path expected_hash fs = (None, fs))"
  by (auto simp: lookup_l2_cache_def load_l2_cache_def Let_def)

theorem l2_integrity_rejection_witness:
  "files bad_magic_fs ''./cache/id.cache'' \<noteq> None \<and>
   magic (cf_header (the (files bad_magic_fs ''./cache/id.cache''))) \<noteq> CACHE_MAGIC \<and>
   lookup_l2_cache 5 ''./cache/id.cache'' 0x1000 7 [] 0 bad_magic_fs = (None, 0, bad_magic_fs) \<and>
   load_l2_cache 5 ''./cache/id.cache'' 0 bad_magic_fs = (None, bad_magic_fs) \<and>
   hdr_x86_hash (cf_header foreign_file) \<noteq> 2 \<and>
   load_l2_cache 5 ''./cache/id.cache'' 2 foreign_fs = (None, foreign_fs)"
proof -
  have f: "files bad_magic_fs ''./cache/id.cache'' =
      Some (foreign_file\<lparr>cf_header := (cf_header foreign_file)\<lparr>magic := 0\<rparr>\<rparr>)"
    by (simp add: bad_magic_fs_def)
  have m: "magic (cf_header (foreign_file\<lparr>cf_header := (cf_header foreign_file)\<lparr>magic := 0\<rparr>\<rparr>))
      \<noteq> CACHE_MAGIC"
    by (simp add: CACHE_MAGIC_def)
  have g: "files foreign_fs ''./cache/id.cache'' = Some foreign_file"
    by (simp add: foreign_fs_def)
  have h: "hdr_x86_hash (cf_header foreign_file) \<noteq> 2"
    by (simp add: foreign_file_def)
  show ?thesis
    using l2_integrity_rejection [of bad_magic_fs "''./cache/id.cache''"
        "foreign_file\<lparr>cf_header := (cf_header foreign_file)\<lparr>magic := 0\<rparr>\<rparr>" 5 "0x1000" 7 "[]" 0 0]
      l2_integrity_rejection [of foreign_fs "''./cache/id.cache''" foreign_file 5 "0x1000" 7 "[]" 0 2]
      f m g h
    by simp
qed


text \<open>
  The other two operations of C7 keep the invariant: \<open>store\<close> and a tier-1 lookup.
\<close>

lemma hot_flag_save:
  assumes ok: "\<forall>x\<in>set (l1_cache c). hot_flag_ok x" and cold: "\<not> is_hot e"
  shows "\<forall>x\<in>set (l1_cache (save_to_l1_cache now e c)). hot_flag_ok x"
proof (cases "\<forall>x\<in>set (l1_cache c). entry_key x \<noteq> entry_key e")
  case True
  have b: "set (butlast (l1_cache c)) \<subseteq> set (l1_cache c)"
    by (auto dest: in_set_butlastD)
  have n: "hot_flag_ok (e\<lparr>last_access := now, access_count := 1\<rparr>)"
    using cold by (simp add: hot_flag_ok_def)
  show ?thesis
    unfolding save_new_key [OF True]
    using ok n b set_erase [of "l1_cache c"] by auto
next
  case False
  from save_old_key [OF False, of now]
  obtain i it where i: "i < length (l1_cache c)"
    and h: "is_hot it = (10 < access_count it)"
    and r: "l1_cache (save_to_l1_cache now e c) = rotate_to_front ((l1_cache c)[i := it]) i"
    by blast
  have "set ((l1_cache c)[i := it]) \<subseteq> insert it (set (l1_cache c))"
    by (rule set_update_subset_insert)
  then show ?thesis
    unfolding r using i ok h by (auto simp: set_rotate_to_front hot_flag_ok_def)
qed

lemma hot_flag_store:
  "\<forall>x\<in>set (l1_cache c). hot_flag_ok x \<Longrightarrow>
   \<forall>x\<in>set (l1_cache (store now binary_id addr x86_code host_addr arm_code c)). hot_flag_ok x"
  unfolding store_def by (rule hot_flag_save) simp_all

lemma hot_flag_lookup_l1:
  assumes ok: "\<forall>x\<in>set (l1_cache c). hot_flag_ok x"
  shows "\<forall>x\<in>set (l1_cache (snd (lookup_l1_cache now addr block_hash c))). hot_flag_ok x"
proof -
  let ?i = "find_if (\<lambda>x. x86_addr x = addr \<and> x86_hash x = block_hash) (l1_cache c)"
  let ?it = "(l1_cache c ! ?i)\<lparr>last_access := now, access_count := access_count (l1_cache c ! ?i) + 1,
      is_hot := (10 < access_count (l1_cache c ! ?i) + 1)\<rparr>"
  show ?thesis
  proof (cases "?i = length (l1_cache c)")
    case True
    then show ?thesis using ok by (simp add: lookup_l1_cache_def Let_def)
  next
    case False
    then have i: "?i < length (l1_cache c)" by (rule find_if_lt)
    have r: "l1_cache (snd (lookup_l1_cache now addr block_hash c)) =
        rotate_to_front ((l1_cache c)[?i := ?it]) ?i"
      using False by (simp add: lookup_l1_cache_def Let_def)
    have "set ((l1_cache c)[?i := ?it]) \<subseteq> insert ?it (set (l1_cache c))"
      by (rule set_update_subset_insert)
    moreover have "hot_flag_ok ?it" by (simp add: hot_flag_ok_def)
    ultimately show ?thesis
      unfolding r using i ok by (auto simp: set_rotate_to_front)
  qed
qed

text \<open>
  The first half of C1 holds: every key persisted by \<open>save_l2_cache\<close> is a tier-2 hit.
\<close>

lemma length_save_entries: "length (save_entries now entries off) = length entries"
  by (induction entries arbitrary: off) simp_all

lemma save_entries_has_key:
  "e \<in> set entries \<Longrightarrow>
   \<exists>fe\<in>set (save_entries now entries off).
      fe_x86_addr fe = x86_addr e \<and> fe_x86_hash fe = x86_hash e"
  by (induction entries arbitrary: off) auto

lemma l2_hit_after_save:
  assumes w: "can_write fs path" and n: "length entries < 2 ^ 32" and e: "e \<in> set entries"
  shows "fst (lookup_l2_cache now' path (x86_addr e) (x86_hash e) arm_code hits
           (snd (save_l2_cache now path entries arm h fs))) \<noteq> None"
proof -
  let ?tab = "save_entries now entries 0"
  have u: "unat (of_nat (length entries) :: 32 word) = length entries"
    using n by (simp add: unat_of_nat)
  from save_entries_has_key [OF e, of now 0]
  have "find_if (\<lambda>fe. fe_x86_addr fe = x86_addr e \<and> fe_x86_hash fe = x86_hash e) ?tab
      \<noteq> length ?tab"
    by (simp add: find_if_end)
  then show ?thesis
    using w u
    by (simp add: lookup_l2_cache_def save_l2_cache_def Let_def read_entries_def
        length_save_entries)
qed

section \<open>Eviction from full caches that stores and lookups produce\<close>

text \<open>The tier-1 vector after stores of blocks that are not in the cache.\<close>

lemma store_all_append:
  "store_all binary_id (xs @ ys) c = store_all binary_id ys (store_all binary_id xs c)"
  by (simp add: store_all_def)

lemma store_all_single:
  "store_all binary_id [(now, addr, x86_code, host_addr, arm_code)] c =
     store now binary_id addr x86_code host_addr arm_code c"
  by (simp add: store_all_def)

lemma entry_key_store_entry: "entry_key (store_entry a) = store_key a"
  by (cases a) (simp add: store_entry_def entry_key_def store_key_def)

lemma store_fresh:
  assumes f: "store_key a \<notin> entry_key ` set (l1_cache c)"
    and n: "length (l1_cache c) < MAX_L1_CACHE_ENTRIES"
  shows "l1_cache (store_all binary_id [a] c) = store_entry a # l1_cache c"
proof -
  obtain now addr x86_code host_addr arm_code where a: "a = (now, addr, x86_code, host_addr, arm_code)"
    by (cases a) auto
  let ?e = "\<lparr>x86_addr = addr, arm_addr = host_addr, x86_size = of_nat (length x86_code),
        arm_size = of_nat (length arm_code), x86_hash = hash_block x86_code, last_access = now,
        access_count = 1, is_hot = False, flags = 0\<rparr>"
  have key: "entry_key ?e = store_key a" by (simp add: a entry_key_def store_key_def)
  have new: "\<forall>x\<in>set (l1_cache c). entry_key x \<noteq> entry_key ?e"
  proof
    fix x assume "x \<in> set (l1_cache c)"
    then have "entry_key x \<in> entry_key ` set (l1_cache c)" by (rule imageI)
    with f show "entry_key x \<noteq> entry_key ?e" unfolding key by metis
  qed
  show ?thesis
    using n unfolding a store_all_single store_def save_new_key [OF new]
    by (simp add: store_entry_def)
qed

lemma store_front:
  assumes l: "l1_cache c = x # rest" and k: "entry_key x = store_key a"
  shows "l1_cache (store_all binary_id [a] c) =
     (touched (fst a) x)\<lparr>arm_addr := arm_addr (store_entry a), arm_size := arm_size (store_entry a)\<rparr> # rest"
proof -
  obtain now addr x86_code host_addr arm_code where a: "a = (now, addr, x86_code, host_addr, arm_code)"
    by (cases a) auto
  have m: "x86_addr x = addr \<and> x86_hash x = hash_block x86_code"
    using k by (simp add: a entry_key_def store_key_def)
  show ?thesis
    unfolding a store_all_single store_def
    using m l by (cases x) (simp add: save_to_l1_cache_def Let_def rotate_to_front_def touched_def store_entry_def)
qed

lemma store_repeat:
  assumes f: "store_key a \<notin> entry_key ` set (l1_cache c)"
    and n: "length (l1_cache c) < MAX_L1_CACHE_ENTRIES"
  shows "l1_cache (store_all binary_id (replicate (Suc k) a) c) = restored k a # l1_cache c"
proof (induction k)
  case 0
  have "restored 0 a = store_entry a"
    by (cases a) (simp add: restored_def store_entry_def)
  then show ?case using store_fresh [OF f n] by simp
next
  case (Suc k)
  have r: "replicate (Suc (Suc k)) a = replicate (Suc k) a @ [a]"
    by (simp add: replicate_append_same)
  have key: "entry_key (restored k a) = store_key a"
    by (cases a) (simp add: restored_def store_entry_def entry_key_def store_key_def)
  have t: "(touched (fst a) (restored k a))\<lparr>arm_addr := arm_addr (store_entry a),
        arm_size := arm_size (store_entry a)\<rparr> = restored (Suc k) a"
    by (cases a) (simp add: touched_def restored_def store_entry_def add.commute add.left_commute)
  show ?case
    unfolding r store_all_append
    using store_front [OF Suc.IH key] t by simp
qed

lemma store_all_repeats:
  assumes "distinct (map store_key as)"
    and "\<forall>k\<in>set (map store_key as). k \<notin> entry_key ` set (l1_cache c)"
    and "length (l1_cache c) + length as \<le> MAX_L1_CACHE_ENTRIES"
  shows "l1_cache (store_all binary_id (concat (map (replicate (Suc k)) as)) c) =
     rev (map (restored k) as) @ l1_cache c"
  using assms
proof (induction as arbitrary: c)
  case Nil
  then show ?case by (simp add: store_all_def)
next
  case (Cons a as)
  let ?c = "store_all binary_id (replicate (Suc k) a) c"
  have f: "store_key a \<notin> entry_key ` set (l1_cache c)" using Cons.prems(2) by simp
  have n: "length (l1_cache c) < MAX_L1_CACHE_ENTRIES" using Cons.prems(3) by simp
  have l: "l1_cache ?c = restored k a # l1_cache c" by (rule store_repeat [OF f n])
  have key: "entry_key (restored k a) = store_key a"
    by (cases a) (simp add: restored_def store_entry_def entry_key_def store_key_def)
  have d: "distinct (map store_key as)" using Cons.prems(1) by simp
  have fresh: "\<forall>q\<in>set (map store_key as). q \<notin> entry_key ` set (l1_cache ?c)"
  proof
    fix q assume q: "q \<in> set (map store_key as)"
    have "store_key a \<notin> set (map store_key as)" using Cons.prems(1) by simp
    with q have "q \<noteq> store_key a" by metis
    moreover have "q \<notin> entry_key ` set (l1_cache c)" using q Cons.prems(2) by auto
    ultimately show "q \<notin> entry_key ` set (l1_cache ?c)" unfolding l using key by auto
  qed
  have len: "length (l1_cache ?c) + length as \<le> MAX_L1_CACHE_ENTRIES"
    using Cons.prems(3) unfolding l by simp
  have step: "store_all binary_id (concat (map (replicate (Suc k)) (a # as))) c =
      store_all binary_id (concat (map (replicate (Suc k)) as)) ?c"
    by (simp only: list.map concat.simps store_all_append)
  have res: "rev (map (restored k) (a # as)) @ l1_cache c =
      rev (map (restored k) as) @ restored k a # l1_cache c" by simp
  show ?case
    by (simp only: step res Cons.IH [OF d fresh len] l)
qed

lemma store_all_fresh:
  assumes "distinct (map store_key as)"
    and "\<forall>k\<in>set (map store_key as). k \<notin> entry_key ` set (l1_cache c)"
    and "length (l1_cache c) + length as \<le> MAX_L1_CACHE_ENTRIES"
  shows "l1_cache (store_all binary_id as c) = rev (map store_entry as) @ l1_cache c"
proof -
  have r: "restored 0 = store_entry"
  proof
    fix a show "restored 0 a = store_entry a"
      by (cases a) (simp add: restored_def store_entry_def)
  qed
  have "concat (map (replicate (Suc 0)) as) = as" by (induction as) simp_all
  then show ?thesis using store_all_repeats [OF assms, of binary_id 0] by (simp add: r)
qed


lemma unat_of_nat64: "i < 2 ^ 64 \<Longrightarrow> unat (of_nat i :: u64) = i"
  by (simp add: unat_of_nat)

lemma of_nat64_eq: "i < 2 ^ 64 \<Longrightarrow> j < 2 ^ 64 \<Longrightarrow> ((of_nat i :: u64) = of_nat j) = (i = j)"
  by (metis unat_of_nat64)

lemma of_nat64_le: "i < 2 ^ 64 \<Longrightarrow> j < 2 ^ 64 \<Longrightarrow> ((of_nat i :: u64) \<le> of_nat j) = (i \<le> j)"
  by (simp add: word_le_nat_alt unat_of_nat64)

lemma distinct_block_keys:
  assumes "n \<le> 2 ^ 64"
  shows "distinct (map store_key (map (\<lambda>i. (t i, of_nat i :: u64, [], h, [])) [0..<n]))"
proof -
  have "inj_on (\<lambda>i. (of_nat i :: u64, hash_block [])) (set [0..<n])"
  proof (rule inj_onI)
    fix x y :: nat
    assume "x \<in> set [0..<n]" "y \<in> set [0..<n]"
      and eq: "(of_nat x :: u64, hash_block []) = (of_nat y, hash_block [])"
    then have "x < 2 ^ 64" "y < 2 ^ 64" using assms by simp_all
    with eq show "x = y" by (simp add: of_nat64_eq)
  qed
  then have "distinct (map (\<lambda>i. (of_nat i :: u64, hash_block [])) [0..<n])"
    by (simp add: distinct_map)
  then show ?thesis by (simp add: store_key_def comp_def)
qed

lemma recency_rev_map_upt:
  assumes "\<And>i j. i \<le> j \<Longrightarrow> j < n \<Longrightarrow> last_access (g i) \<le> last_access (g j)"
  shows "recency_ordered (rev (map g [0..<n]))"
proof -
  have "sorted_wrt (\<lambda>i j. last_access (g i) \<le> last_access (g j)) [0..<n]"
    using assms by (simp add: sorted_wrt_iff_nth_less)
  then show ?thesis
    by (simp only: recency_ordered_def sorted_wrt_rev sorted_wrt_map)
qed

lemma hot_tail_entries:
  "l1_cache hot_tail_cache = rev (map store_entry cold_stores) @ l1_cache hot_block_cache"
  unfolding hot_tail_cache_def
proof (rule store_all_fresh)
  show "distinct (map store_key cold_stores)"
    unfolding cold_stores_def by (rule distinct_block_keys) simp
  show "\<forall>k\<in>set (map store_key cold_stores). k \<notin> entry_key ` set (l1_cache hot_block_cache)"
  proof
    fix k assume "k \<in> set (map store_key cold_stores)"
    then obtain i where i: "i < 1023" and k: "k = (of_nat i, hash_block [])"
      by (auto simp: cold_stores_def store_key_def)
    have "i < 2 ^ 64" "(4096 :: nat) < 2 ^ 64" using i by simp_all
    then have "((of_nat i :: u64) = of_nat 4096) = (i = 4096)" by (rule of_nat64_eq)
    then have "(of_nat i :: u64) \<noteq> 4096" using i by simp
    then show "k \<notin> entry_key ` set (l1_cache hot_block_cache)"
      by (simp add: k hot_block_cache_eq entry_key_def)
  qed
  show "length (l1_cache hot_block_cache) + length cold_stores \<le> MAX_L1_CACHE_ENTRIES"
    by (simp add: hot_block_cache_eq cold_stores_def MAX_L1_CACHE_ENTRIES_def)
qed

lemma all_hot_entries:
  "l1_cache all_hot_cache = rev (map (restored 10) hot_blocks)"
proof -
  have d: "distinct (map store_key hot_blocks)"
    unfolding hot_blocks_def by (rule distinct_block_keys) simp
  have f: "\<forall>k\<in>set (map store_key hot_blocks). k \<notin> entry_key ` set (l1_cache demo_cache)"
    by (simp add: demo_cache_def)
  have n: "length (l1_cache demo_cache) + length hot_blocks \<le> MAX_L1_CACHE_ENTRIES"
    by (simp add: demo_cache_def hot_blocks_def MAX_L1_CACHE_ENTRIES_def)
  have e: "(11 :: nat) = Suc 10" by simp
  show ?thesis
    unfolding all_hot_cache_def e store_all_repeats [OF d f n]
    by (simp add: demo_cache_def)
qed

lemma find_if_first_hit:
  "(\<forall>y\<in>set a. \<not> P y) \<Longrightarrow> P x \<Longrightarrow> find_if P (a @ x # b) = length a"
  by (induction a) simp_all

lemma save_evicts:
  assumes l: "l1_cache c = pre @ x # post" and x: "\<not> is_hot x" and post: "\<forall>y\<in>set post. is_hot y"
    and full: "MAX_L1_CACHE_ENTRIES \<le> length (l1_cache c)"
    and new: "\<forall>y\<in>set (l1_cache c). entry_key y \<noteq> entry_key e"
  shows "l1_cache (save_to_l1_cache now e c) = e\<lparr>last_access := now, access_count := 1\<rparr> # pre @ post"
proof -
  have r: "rev (l1_cache c) = rev post @ x # rev pre" by (simp add: l)
  have j: "find_if (\<lambda>x. \<not> is_hot x) (rev (l1_cache c)) = length post"
    unfolding r using find_if_first_hit [of "rev post" "\<lambda>x. \<not> is_hot x" x "rev pre"] x post by simp
  have n: "length (l1_cache c) - 1 - length post = length pre" by (simp add: l)
  have e: "erase (l1_cache c) (length pre) = pre @ post" by (simp add: erase_def l)
  show ?thesis
    unfolding save_new_key [OF new] j n e using full by (simp add: l)
qed

lemma save_evicts_last:
  assumes hot: "\<forall>y\<in>set (l1_cache c). is_hot y"
    and full: "MAX_L1_CACHE_ENTRIES \<le> length (l1_cache c)"
    and new: "\<forall>y\<in>set (l1_cache c). entry_key y \<noteq> entry_key e"
  shows "l1_cache (save_to_l1_cache now e c) =
     e\<lparr>last_access := now, access_count := 1\<rparr> # butlast (l1_cache c)"
proof -
  have "find_if (\<lambda>x. \<not> is_hot x) (rev (l1_cache c)) = length (l1_cache c)"
    using find_if_end [of "\<lambda>x. \<not> is_hot x" "rev (l1_cache c)"] hot by simp
  then show ?thesis unfolding save_new_key [OF new] using full by simp
qed

lemma cold_stores_Cons:
  "cold_stores = (3, 0, [], 0, []) # map (\<lambda>i. (of_nat (i + 3), of_nat i, [], 0, [])) [Suc 0..<1023]"
  unfolding cold_stores_def by (subst upt_conv_Cons) simp_all

lemma hot_blocks_Cons:
  "hot_blocks = (1, 0, [], 0, []) # map (\<lambda>i. (of_nat (i + 1), of_nat i, [], 0, [])) [Suc 0..<1024]"
  unfolding hot_blocks_def by (subst upt_conv_Cons) simp_all

lemma hot_tail_split:
  "l1_cache hot_tail_cache =
     rev (map store_entry (map (\<lambda>i. (of_nat (i + 3), of_nat i, [], 0, [])) [Suc 0..<1023])) @
     store_entry (3, 0, [], 0, []) # l1_cache hot_block_cache"
  unfolding hot_tail_entries by (subst cold_stores_Cons) simp

lemma hot_tail_full: "MAX_L1_CACHE_ENTRIES \<le> length (l1_cache hot_tail_cache)"
  by (simp add: hot_tail_entries cold_stores_def hot_block_cache_eq MAX_L1_CACHE_ENTRIES_def)

lemma hot_tail_recency: "recency_ordered (l1_cache hot_tail_cache)"
proof -
  let ?g = "\<lambda>i. store_entry (of_nat (i + 3), of_nat i :: u64, [], 0, [])"
  have m: "map store_entry cold_stores = map ?g [0..<1023]"
    by (simp add: cold_stores_def comp_def)
  have a: "recency_ordered (rev (map ?g [0..<1023]))"
  proof (rule recency_rev_map_upt)
    fix i j :: nat assume "i \<le> j" "j < 1023"
    then have "i + 3 < 2 ^ 64" "j + 3 < 2 ^ 64" "i + 3 \<le> j + 3" by simp_all
    then have "(of_nat (i + 3) :: u64) \<le> of_nat (j + 3)" by (simp only: of_nat64_le)
    then show "last_access (?g i) \<le> last_access (?g j)" by (simp add: store_entry_def)
  qed
  have b: "\<forall>x\<in>set (rev (map ?g [0..<1023])). (2 :: u64) \<le> last_access x"
  proof
    fix x assume "x \<in> set (rev (map ?g [0..<1023]))"
    then obtain i where i: "i < 1023" and x: "x = ?g i" by auto
    have "i + 3 < 2 ^ 64" "(2 :: nat) < 2 ^ 64" "2 \<le> i + 3" using i by simp_all
    then have "(of_nat 2 :: u64) \<le> of_nat (i + 3)" by (simp only: of_nat64_le)
    then show "2 \<le> last_access x" by (simp add: x store_entry_def)
  qed
  show ?thesis
    unfolding hot_tail_entries m using a b
    by (simp add: recency_ordered_def sorted_wrt_append hot_block_cache_eq)
qed


lemma addr_not_5000: "i < 1024 \<Longrightarrow> (of_nat i :: u64) \<noteq> 5000"
proof -
  assume i: "i < 1024"
  then have "i < 2 ^ 64" "(5000 :: nat) < 2 ^ 64" by simp_all
  then have "((of_nat i :: u64) = of_nat 5000) = (i = 5000)" by (rule of_nat64_eq)
  then show ?thesis using i by simp
qed

lemma hot_tail_new: "\<forall>x\<in>set (l1_cache hot_tail_cache). entry_key x \<noteq> entry_key new_block"
proof
  fix x assume "x \<in> set (l1_cache hot_tail_cache)"
  then have "x \<in> set (l1_cache hot_block_cache) \<or> (\<exists>i<1023. x = store_entry (of_nat (i + 3), of_nat i, [], 0, []))"
    unfolding hot_tail_entries by (auto simp: cold_stores_def)
  then show "entry_key x \<noteq> entry_key new_block"
  proof
    assume "x \<in> set (l1_cache hot_block_cache)"
    then show ?thesis by (simp add: hot_block_cache_eq entry_key_def new_block_def)
  next
    assume "\<exists>i<1023. x = store_entry (of_nat (i + 3), of_nat i, [], 0, [])"
    then obtain i where i: "i < 1023" and x: "x = store_entry (of_nat (i + 3), of_nat i, [], 0, [])"
      by blast
    have "(of_nat i :: u64) \<noteq> 5000" using i by (intro addr_not_5000) simp
    then show ?thesis by (simp add: x store_entry_def entry_key_def new_block_def)
  qed
qed

lemma hot_tail_flags: "map is_hot (l1_cache hot_tail_cache) = replicate 1023 False @ [True]"
  by (simp add: hot_tail_entries cold_stores_def hot_block_cache_eq store_entry_def comp_def
      rev_map [symmetric] map_replicate_const)

lemma hot_tail_addrs:
  "map x86_addr (l1_cache hot_tail_cache) = rev (map of_nat [0..<1023]) @ [0x1000]"
  by (simp add: hot_tail_entries cold_stores_def hot_block_cache_eq store_entry_def comp_def
      rev_map [symmetric])

lemma hot_tail_stamps:
  "map last_access (l1_cache hot_tail_cache) = rev (map (\<lambda>i. of_nat (i + 3)) [0..<1023]) @ [2]"
  by (simp add: hot_tail_entries cold_stores_def hot_block_cache_eq store_entry_def comp_def
      rev_map [symmetric])

lemma hot_tail_evicts:
  "map x86_addr (l1_cache (save_to_l1_cache 2000 new_block hot_tail_cache)) =
     5000 # rev (map of_nat [Suc 0..<1023]) @ [0x1000]"
proof -
  have x: "\<not> is_hot (store_entry (3, 0, [], 0, []))" by (simp add: store_entry_def)
  have post: "\<forall>y\<in>set (l1_cache hot_block_cache). is_hot y" by (simp add: hot_block_cache_eq)
  show ?thesis
    unfolding save_evicts [OF hot_tail_split x post hot_tail_full hot_tail_new]
    by (simp add: hot_block_cache_eq store_entry_def comp_def rev_map [symmetric] new_block_def)
qed

lemma all_hot_full: "MAX_L1_CACHE_ENTRIES \<le> length (l1_cache all_hot_cache)"
  by (simp add: all_hot_entries hot_blocks_def MAX_L1_CACHE_ENTRIES_def)

lemma all_hot_recency: "recency_ordered (l1_cache all_hot_cache)"
proof -
  let ?g = "\<lambda>i. restored 10 (of_nat (i + 1), of_nat i :: u64, [], 0, [])"
  have m: "map (restored 10) hot_blocks = map ?g [0..<1024]"
    by (simp add: hot_blocks_def comp_def)
  show ?thesis unfolding all_hot_entries m
  proof (rule recency_rev_map_upt)
    fix i j :: nat assume "i \<le> j" "j < 1024"
    then have "i + 1 < 2 ^ 64" "j + 1 < 2 ^ 64" "i + 1 \<le> j + 1" by simp_all
    then have "(of_nat (i + 1) :: u64) \<le> of_nat (j + 1)" by (simp only: of_nat64_le)
    then show "last_access (?g i) \<le> last_access (?g j)" by (simp add: restored_def store_entry_def)
  qed
qed

lemma all_hot_new: "\<forall>x\<in>set (l1_cache all_hot_cache). entry_key x \<noteq> entry_key new_block"
proof
  fix x assume "x \<in> set (l1_cache all_hot_cache)"
  then obtain i where i: "i < 1024" and x: "x = restored 10 (of_nat (i + 1), of_nat i, [], 0, [])"
    unfolding all_hot_entries by (auto simp: hot_blocks_def)
  have "(of_nat i :: u64) \<noteq> 5000" using i by (rule addr_not_5000)
  then show "entry_key x \<noteq> entry_key new_block"
    by (simp add: x restored_def store_entry_def entry_key_def new_block_def)
qed

lemma all_hot_flags: "\<forall>x\<in>set (l1_cache all_hot_cache). is_hot x"
  by (auto simp: all_hot_entries hot_blocks_def restored_def)

lemma all_hot_addrs: "map x86_addr (l1_cache all_hot_cache) = rev (map of_nat [0..<1024])"
  by (simp add: all_hot_entries hot_blocks_def restored_def store_entry_def comp_def rev_map [symmetric])

lemma all_hot_stamps:
  "map last_access (l1_cache all_hot_cache) = rev (map (\<lambda>i. of_nat (i + 1)) [0..<1024])"
  by (simp add: all_hot_entries hot_blocks_def restored_def store_entry_def comp_def rev_map [symmetric])

lemma all_hot_evicts:
  "map x86_addr (l1_cache (save_to_l1_cache 2000 new_block all_hot_cache)) =
     5000 # rev (map of_nat [Suc 0..<1024])"
  unfolding save_evicts_last [OF all_hot_flags all_hot_full all_hot_new] all_hot_entries
  by (subst hot_blocks_Cons)
     (simp add: restored_def store_entry_def comp_def rev_map [symmetric] new_block_def)


lemma two_blocks_entries:
  "l1_cache two_blocks_cache =
     [\<lparr>x86_addr = 0x1010, arm_addr = 0x7004, x86_size = 1, arm_size = 4,
       x86_hash = hash_block [0xC3], last_access = 2, access_count = 1, is_hot = False, flags = 0\<rparr>,
      \<lparr>x86_addr = 0x1000, arm_addr = 0x7000, x86_size = 2, arm_size = 4,
       x86_hash = hash_block [0x90, 0xC3], last_access = 1, access_count = 1, is_hot = False,
       flags = 0\<rparr>]"
  by (simp add: two_blocks_cache_def store_def save_to_l1_cache_def demo_cache_def Let_def
      MAX_L1_CACHE_ENTRIES_def)

lemma two_blocks_lookup:
  "fst (lookup_l1_cache 3 0x1000 (hash_block [0x90, 0xC3]) two_blocks_cache) \<noteq> None \<and>
   map x86_addr (l1_cache two_blocks_cache) = [0x1010, 0x1000] \<and>
   map x86_addr (l1_cache (snd (lookup_l1_cache 3 0x1000 (hash_block [0x90, 0xC3]) two_blocks_cache)))
     = [0x1000, 0x1010]"
  by (simp add: two_blocks_entries lookup_l1_cache_def Let_def rotate_to_front_def)

text \<open>
  The eviction theorem at concrete states: 1025 stores into the empty cache; a lookup of the
  older of two blocks, which moves it to the front; a full cache whose oldest entry is hot,
  where the insertion removes the oldest cold entry (the block at 0, stored at time 3) and
  keeps the hot block at 0x1000; a full cache of hot entries, where the insertion removes
  the oldest entry (the block at 0, last stored at time 1).
\<close>

theorem l1_eviction_fairness_witness:
  "(l1_cache demo_cache = [] \<and> distinct (map store_key many_stores) \<and>
    MAX_L1_CACHE_ENTRIES < length many_stores \<and>
    length (l1_cache (store_all ''id'' many_stores demo_cache)) = 1024 \<and>
    map entry_key (l1_cache (store_all ''id'' many_stores demo_cache)) =
      take 1024 (rev (map store_key many_stores))) \<and>
   (recency_ordered (l1_cache two_blocks_cache) \<and>
    list_all (\<lambda>y. last_access y \<le> 3) (l1_cache two_blocks_cache) \<and>
    recency_ordered
      (l1_cache (store 3 ''id'' 0x1000 [0x90, 0xC3] 0x7000 [1, 2, 3, 4] two_blocks_cache)) \<and>
    recency_ordered
      (l1_cache (snd (lookup_l1_cache 3 0x1000 (hash_block [0x90, 0xC3]) two_blocks_cache))) \<and>
    recency_ordered (l1_cache (save_to_l1_cache 3 new_block two_blocks_cache))) \<and>
   (fst (lookup_l1_cache 3 0x1000 (hash_block [0x90, 0xC3]) two_blocks_cache) \<noteq> None \<and>
    map x86_addr (l1_cache two_blocks_cache) = [0x1010, 0x1000] \<and>
    map x86_addr (l1_cache (snd (lookup_l1_cache 3 0x1000 (hash_block [0x90, 0xC3]) two_blocks_cache)))
      = [0x1000, 0x1010] \<and>
    (\<exists>pre x post. l1_cache two_blocks_cache = pre @ x # post \<and>
       fst (lookup_l1_cache 3 0x1000 (hash_block [0x90, 0xC3]) two_blocks_cache) = Some x \<and>
       l1_cache (snd (lookup_l1_cache 3 0x1000 (hash_block [0x90, 0xC3]) two_blocks_cache)) =
         touched 3 x # pre @ post)) \<and>
   (MAX_L1_CACHE_ENTRIES \<le> length (l1_cache hot_tail_cache) \<and>
    recency_ordered (l1_cache hot_tail_cache) \<and>
    list_all (\<lambda>x. entry_key x \<noteq> entry_key new_block) (l1_cache hot_tail_cache) \<and>
    map is_hot (l1_cache hot_tail_cache) = replicate 1023 False @ [True] \<and>
    map x86_addr (l1_cache hot_tail_cache) = rev (map of_nat [0..<1023]) @ [0x1000] \<and>
    map last_access (l1_cache hot_tail_cache) = rev (map (\<lambda>i. of_nat (i + 3)) [0..<1023]) @ [2] \<and>
    (\<exists>pre x post. l1_cache hot_tail_cache = pre @ x # post \<and> \<not> is_hot x \<and>
       (\<forall>y\<in>set post. is_hot y) \<and>
       (\<forall>y\<in>set (l1_cache hot_tail_cache). \<not> is_hot y \<longrightarrow> last_access x \<le> last_access y) \<and>
       l1_cache (save_to_l1_cache 2000 new_block hot_tail_cache) =
         new_block\<lparr>last_access := 2000, access_count := 1\<rparr> # pre @ post) \<and>
    map x86_addr (l1_cache (save_to_l1_cache 2000 new_block hot_tail_cache)) =
      5000 # rev (map of_nat [Suc 0..<1023]) @ [0x1000]) \<and>
   (MAX_L1_CACHE_ENTRIES \<le> length (l1_cache all_hot_cache) \<and>
    recency_ordered (l1_cache all_hot_cache) \<and>
    list_all (\<lambda>x. entry_key x \<noteq> entry_key new_block) (l1_cache all_hot_cache) \<and>
    list_all is_hot (l1_cache all_hot_cache) \<and>
    map x86_addr (l1_cache all_hot_cache) = rev (map of_nat [0..<1024]) \<and>
    map last_access (l1_cache all_hot_cache) = rev (map (\<lambda>i. of_nat (i + 1)) [0..<1024]) \<and>
    list_all (\<lambda>y. last_access (last (l1_cache all_hot_cache)) \<le> last_access y)
      (l1_cache all_hot_cache) \<and>
    l1_cache (save_to_l1_cache 2000 new_block all_hot_cache) =
      new_block\<lparr>last_access := 2000, access_count := 1\<rparr> # butlast (l1_cache all_hot_cache) \<and>
    map x86_addr (l1_cache (save_to_l1_cache 2000 new_block all_hot_cache)) =
      5000 # rev (map of_nat [Suc 0..<1024]))"
proof -
  note t1 = l1_eviction_fairness [where c = demo_cache and inss = many_stores and binary_id = "''id''"
      and ?c1.0 = two_blocks_cache and now = 3 and addr = "0x1000" and x86_code = "[0x90, 0xC3]"
      and host_addr = "0x7000" and arm_code = "[1, 2, 3, 4]" and block_hash = "hash_block [0x90, 0xC3]"
      and e = new_block and ?c2.0 = hot_tail_cache]
  note t2 = l1_eviction_fairness [where c = demo_cache and inss = many_stores and binary_id = "''id''"
      and ?c1.0 = two_blocks_cache and now = 2000 and addr = "0x1000" and x86_code = "[0x90, 0xC3]"
      and host_addr = "0x7000" and arm_code = "[1, 2, 3, 4]" and block_hash = "hash_block [0x90, 0xC3]"
      and e = new_block and ?c2.0 = hot_tail_cache]
  note t3 = l1_eviction_fairness [where c = demo_cache and inss = many_stores and binary_id = "''id''"
      and ?c1.0 = two_blocks_cache and now = 2000 and addr = "0x1000" and x86_code = "[0x90, 0xC3]"
      and host_addr = "0x7000" and arm_code = "[1, 2, 3, 4]" and block_hash = "hash_block [0x90, 0xC3]"
      and e = new_block and ?c2.0 = all_hot_cache]
  have h1: "l1_cache demo_cache = [] \<and> distinct (map store_key many_stores) \<and>
      MAX_L1_CACHE_ENTRIES < length many_stores"
    using distinct_block_keys [of 1025 "\<lambda>i. 0" 0]
    by (simp add: demo_cache_def many_stores_def MAX_L1_CACHE_ENTRIES_def)
  have g1: "l1_cache demo_cache = [] \<and> distinct (map store_key many_stores) \<and>
    MAX_L1_CACHE_ENTRIES < length many_stores \<and>
    length (l1_cache (store_all ''id'' many_stores demo_cache)) = 1024 \<and>
    map entry_key (l1_cache (store_all ''id'' many_stores demo_cache)) =
      take 1024 (rev (map store_key many_stores))"
    using mp [OF t1 [THEN conjunct1] h1] h1 by (simp only: simp_thms)
  have h2: "recency_ordered (l1_cache two_blocks_cache) \<and>
      (\<forall>y\<in>set (l1_cache two_blocks_cache). last_access y \<le> 3)"
    by (simp add: two_blocks_entries recency_ordered_def)
  have g2: "recency_ordered (l1_cache two_blocks_cache) \<and>
    list_all (\<lambda>y. last_access y \<le> 3) (l1_cache two_blocks_cache) \<and>
    recency_ordered
      (l1_cache (store 3 ''id'' 0x1000 [0x90, 0xC3] 0x7000 [1, 2, 3, 4] two_blocks_cache)) \<and>
    recency_ordered
      (l1_cache (snd (lookup_l1_cache 3 0x1000 (hash_block [0x90, 0xC3]) two_blocks_cache))) \<and>
    recency_ordered (l1_cache (save_to_l1_cache 3 new_block two_blocks_cache))"
    using mp [OF t1 [THEN conjunct2, THEN conjunct1] h2] h2 by (simp add: list_all_iff)
  have h3: "fst (lookup_l1_cache 3 0x1000 (hash_block [0x90, 0xC3]) two_blocks_cache) \<noteq> None"
    using two_blocks_lookup by (rule conjunct1)
  have g3: "fst (lookup_l1_cache 3 0x1000 (hash_block [0x90, 0xC3]) two_blocks_cache) \<noteq> None \<and>
    map x86_addr (l1_cache two_blocks_cache) = [0x1010, 0x1000] \<and>
    map x86_addr (l1_cache (snd (lookup_l1_cache 3 0x1000 (hash_block [0x90, 0xC3]) two_blocks_cache)))
      = [0x1000, 0x1010] \<and>
    (\<exists>pre x post. l1_cache two_blocks_cache = pre @ x # post \<and>
       fst (lookup_l1_cache 3 0x1000 (hash_block [0x90, 0xC3]) two_blocks_cache) = Some x \<and>
       l1_cache (snd (lookup_l1_cache 3 0x1000 (hash_block [0x90, 0xC3]) two_blocks_cache)) =
         touched 3 x # pre @ post)"
    using mp [OF t1 [THEN conjunct2, THEN conjunct2, THEN conjunct1] h3] two_blocks_lookup
    by (simp only: simp_thms)
  have h4: "MAX_L1_CACHE_ENTRIES \<le> length (l1_cache hot_tail_cache) \<and>
      recency_ordered (l1_cache hot_tail_cache) \<and>
      (\<forall>x\<in>set (l1_cache hot_tail_cache). entry_key x \<noteq> entry_key new_block)"
    using hot_tail_full hot_tail_recency hot_tail_new by (simp only: simp_thms)
  have "False \<in> set (map is_hot (l1_cache hot_tail_cache))" unfolding hot_tail_flags by simp
  then have c4: "\<exists>x\<in>set (l1_cache hot_tail_cache). \<not> is_hot x" by auto
  have g4: "MAX_L1_CACHE_ENTRIES \<le> length (l1_cache hot_tail_cache) \<and>
    recency_ordered (l1_cache hot_tail_cache) \<and>
    list_all (\<lambda>x. entry_key x \<noteq> entry_key new_block) (l1_cache hot_tail_cache) \<and>
    map is_hot (l1_cache hot_tail_cache) = replicate 1023 False @ [True] \<and>
    map x86_addr (l1_cache hot_tail_cache) = rev (map of_nat [0..<1023]) @ [0x1000] \<and>
    map last_access (l1_cache hot_tail_cache) = rev (map (\<lambda>i. of_nat (i + 3)) [0..<1023]) @ [2] \<and>
    (\<exists>pre x post. l1_cache hot_tail_cache = pre @ x # post \<and> \<not> is_hot x \<and>
       (\<forall>y\<in>set post. is_hot y) \<and>
       (\<forall>y\<in>set (l1_cache hot_tail_cache). \<not> is_hot y \<longrightarrow> last_access x \<le> last_access y) \<and>
       l1_cache (save_to_l1_cache 2000 new_block hot_tail_cache) =
         new_block\<lparr>last_access := 2000, access_count := 1\<rparr> # pre @ post) \<and>
    map x86_addr (l1_cache (save_to_l1_cache 2000 new_block hot_tail_cache)) =
      5000 # rev (map of_nat [Suc 0..<1023]) @ [0x1000]"
    using mp [OF t2 [THEN conjunct2, THEN conjunct2, THEN conjunct2] h4] h4 c4
      hot_tail_flags hot_tail_addrs hot_tail_stamps hot_tail_evicts
    by (simp add: list_all_iff)
  have h5: "MAX_L1_CACHE_ENTRIES \<le> length (l1_cache all_hot_cache) \<and>
      recency_ordered (l1_cache all_hot_cache) \<and>
      (\<forall>x\<in>set (l1_cache all_hot_cache). entry_key x \<noteq> entry_key new_block)"
    using all_hot_full all_hot_recency all_hot_new by (simp only: simp_thms)
  have c5: "\<not> (\<exists>x\<in>set (l1_cache all_hot_cache). \<not> is_hot x)" using all_hot_flags by simp
  have g5: "MAX_L1_CACHE_ENTRIES \<le> length (l1_cache all_hot_cache) \<and>
    recency_ordered (l1_cache all_hot_cache) \<and>
    list_all (\<lambda>x. entry_key x \<noteq> entry_key new_block) (l1_cache all_hot_cache) \<and>
    list_all is_hot (l1_cache all_hot_cache) \<and>
    map x86_addr (l1_cache all_hot_cache) = rev (map of_nat [0..<1024]) \<and>
    map last_access (l1_cache all_hot_cache) = rev (map (\<lambda>i. of_nat (i + 1)) [0..<1024]) \<and>
    list_all (\<lambda>y. last_access (last (l1_cache all_hot_cache)) \<le> last_access y)
      (l1_cache all_hot_cache) \<and>
    l1_cache (save_to_l1_cache 2000 new_block all_hot_cache) =
      new_block\<lparr>last_access := 2000, access_count := 1\<rparr> # butlast (l1_cache all_hot_cache) \<and>
    map x86_addr (l1_cache (save_to_l1_cache 2000 new_block all_hot_cache)) =
      5000 # rev (map of_nat [Suc 0..<1024])"
    using mp [OF t3 [THEN conjunct2, THEN conjunct2, THEN conjunct2] h5] h5 c5
      all_hot_flags all_hot_addrs all_hot_stamps all_hot_evicts
    by (simp add: list_all_iff)
  show ?thesis by (rule conjI [OF g1 conjI [OF g2 conjI [OF g3 conjI [OF g4 g5]]]])
qed


section \<open>The persistence engine: flush\<close>

lemmas pm_defs =
  two_writes_def pm_init_def queue_write_def worker_take_def worker_process_def
  write_to_file_def write_at_def run_callback_def flush_def flush_wait_def Let_def

text \<open>
  C10 fails on the code. Writes \<open>a\<close> and then \<open>b\<close> at offset 0 of one file are queued.
  First schedule: the worker writes \<open>a\<close> and pops \<open>b\<close>; \<open>flush\<close> now finds the queue
  empty and returns, the file holds \<open>a\<close>, and \<open>b\<close> reaches the disk only afterwards.
  Second schedule: \<open>flush\<close> is called while both jobs are queued; it posts its job and
  waits; the worker writes \<open>a\<close> and \<open>b\<close> and pops the job of \<open>flush\<close>, whose
  callback it skips because the path is empty; nothing is left to do and \<open>flush\<close>
  still waits.
\<close>

theorem flush_returns_early_or_never:
  "(let s = worker_take (worker_process (worker_take two_writes)) in
      flush s = (Returned, s) \<and> disk s ''cache/f.cache'' = Some [0x61] \<and>
      disk (worker_process s) ''cache/f.cache'' = Some [0x62]) \<and>
   (case flush two_writes of
      (status, s) \<Rightarrow>
        let s' = worker_process (worker_take (worker_process (worker_take
                   (worker_process (worker_take s)))))
        in status = Waiting \<and> job_queue s' = [] \<and> worker_job s' = None \<and>
           disk s' ''cache/f.cache'' = Some [0x62] \<and> flush_wait s' = Waiting)"
  by (simp add: pm_defs)

end
